theory Spec2Isabelle
  imports Main "HOL-Library.AList" "HOL-Library.Sublist" "HOL-Library.Char_ord"
    "HOL-Library.List_Lexorder" "HOL-Library.Extended_Nat"
begin

section \<open>Strings and arrays of the host language\<close>

text \<open>
  A JavaScript string is modelled as the list of the bytes of its UTF-8 encoding
  (\<^typ>\<open>string\<close>). The operations the formatters use (concatenation, equality,
  \<^verbatim>\<open>split('/')\<close>, \<^verbatim>\<open>startsWith\<close>, \<^verbatim>\<open>endsWith\<close>, \<^verbatim>\<open>substring\<close> at the end of a
  matched prefix) commute with that encoding on well-formed strings. Characters outside
  ASCII in the source's literals are written byte by byte.
\<close>

text \<open>\<^verbatim>\<open>s.split('/')\<close>: never empty; the empty string gives one empty segment.\<close>

fun split_slash :: "string \<Rightarrow> string list" where
  "split_slash [] = [[]]"
| "split_slash (c # cs) =
    (if c = CHR ''/'' then [] # split_slash cs
     else (c # hd (split_slash cs)) # tl (split_slash cs))"

text \<open>\<^verbatim>\<open>xs.join(sep)\<close>.\<close>

fun join :: "string \<Rightarrow> string list \<Rightarrow> string" where
  "join sep [] = []"
| "join sep [x] = x"
| "join sep (x # y # ys) = x @ sep @ join sep (y # ys)"

text \<open>\<^verbatim>\<open>s.startsWith(p)\<close>, \<^verbatim>\<open>s.endsWith(p)\<close> and \<^verbatim>\<open>s.substring(n)\<close>.\<close>

definition startsWith :: "string \<Rightarrow> string \<Rightarrow> bool" where
  "startsWith s p = prefix p s"

definition endsWith :: "string \<Rightarrow> string \<Rightarrow> bool" where
  "endsWith s p = suffix p s"

definition substring :: "string \<Rightarrow> nat \<Rightarrow> string" where
  "substring s n = drop n s"

text \<open>The decimal numeral of a non-negative integer, as a template literal prints it.\<close>

fun string_of_nat :: "nat \<Rightarrow> string" where
  "string_of_nat n =
    (if n < 10 then [char_of (48 + n)]
     else string_of_nat (n div 10) @ [char_of (48 + n mod 10)])"

declare string_of_nat.simps [simp del]

text \<open>
  \<^verbatim>\<open>String.prototype.localeCompare\<close> belongs to the host, not to the repository: its
  result depends on the collation data and the default locale of the engine. It is a
  parameter of the model, the first argument of every function that sorts (named
  \<open>localeCompare\<close> in the two comparators that call it and \<open>lc\<close> elsewhere); nothing is
  assumed about it unless a statement says so.
\<close>

type_synonym comparator = "string \<Rightarrow> string \<Rightarrow> int"

text \<open>
  What the sorted result needs of a comparator: any two names are comparable, and the
  comparison is transitive.
\<close>

definition consistent :: "comparator \<Rightarrow> bool" where
  "consistent lc \<longleftrightarrow>
    (\<forall>a b. lc a b \<le> 0 \<or> lc b a \<le> 0) \<and>
    (\<forall>a b c. lc a b \<le> 0 \<and> lc b c \<le> 0 \<longrightarrow> lc a c \<le> 0)"

text \<open>
  One consistent comparator, the three-way comparison of the strings byte by byte. It is
  not the host's function (which puts \<^verbatim>\<open>a.ts\<close> before \<^verbatim>\<open>B.ts\<close>); it instantiates the
  parameter where a statement about every comparator is shown at a concrete one.
\<close>

definition byteCompare :: comparator where
  "byteCompare a b = (if a < b then - 1 else if b < a then 1 else 0)"

text \<open>
  \<^verbatim>\<open>Array.prototype.sort(cmp)\<close> is stable; for a consistent comparator its result is
  the one stable sorted arrangement, computed here by insertion from the right.
\<close>

fun insert_sorted ::
  "('a \<Rightarrow> 'a \<Rightarrow> int) \<Rightarrow> 'a \<Rightarrow> 'a list \<Rightarrow> 'a list" where
  "insert_sorted cmp x [] = [x]"
| "insert_sorted cmp x (y # ys) =
    (if cmp x y \<le> 0 then x # y # ys else y # insert_sorted cmp x ys)"

definition array_sort ::
  "('a \<Rightarrow> 'a \<Rightarrow> int) \<Rightarrow> 'a list \<Rightarrow> 'a list" where
  "array_sort cmp xs = foldr (insert_sorted cmp) xs []"

text \<open>\<^verbatim>\<open>Array.prototype.findIndex\<close>: the position of the first element satisfying \<open>P\<close>.\<close>

fun findIndex :: "('a \<Rightarrow> bool) \<Rightarrow> 'a list \<Rightarrow> nat option" where
  "findIndex P [] = None"
| "findIndex P (x # xs) = (if P x then Some 0 else map_option Suc (findIndex P xs))"

section \<open>Path normalisation (src/utils/path-utils.ts)\<close>

definition backslashes_to_slashes :: "string \<Rightarrow> string" where
  "backslashes_to_slashes p = map (\<lambda>c. if c = CHR 0x5C then CHR ''/'' else c) p"

definition strip_leading_slashes :: "string \<Rightarrow> string" where
  "strip_leading_slashes p = dropWhile (\<lambda>c. c = CHR ''/'') p"

definition strip_trailing_slashes :: "string \<Rightarrow> string" where
  "strip_trailing_slashes p = rev (dropWhile (\<lambda>c. c = CHR ''/'') (rev p))"

fun collapse_slashes :: "string \<Rightarrow> string" where
  "collapse_slashes (a # b # cs) =
    (if a = CHR ''/'' \<and> b = CHR ''/'' then collapse_slashes (b # cs)
     else a # collapse_slashes (b # cs))"
| "collapse_slashes cs = cs"

definition normalizePath :: "string \<Rightarrow> string" where
  "normalizePath p =
    collapse_slashes (strip_trailing_slashes (strip_leading_slashes (backslashes_to_slashes p)))"

section \<open>The data model (src/types/index.ts)\<close>

datatype ItemType = blob | tree

text \<open>
  Of a \<^verbatim>\<open>GitHubTreeItem\<close> the formatters read \<^verbatim>\<open>path\<close>, \<^verbatim>\<open>type\<close> and the optional
  \<^verbatim>\<open>size\<close>; \<^verbatim>\<open>mode\<close>, \<^verbatim>\<open>sha\<close> and \<^verbatim>\<open>url\<close> are never read and are left out. Sizes are
  the non-negative integers of the tree API; the arithmetic on them is exact in the
  host's numbers below \<open>2 ^ 53\<close>.
\<close>

record GitHubTreeItem =
  itemPath :: string
  itemType :: ItemType
  itemSize :: "nat option"

section \<open>The plain formatter (src/services/tree-formatter.ts)\<close>

datatype TreeNode = TreeNode (name: string) (isDirectory: bool) (children: "TreeNode list")

text \<open>The comparator of both \<^verbatim>\<open>sort\<close> calls: files first, then directories.\<close>

definition compareNodes ::
  "comparator \<Rightarrow> TreeNode \<Rightarrow> TreeNode \<Rightarrow> int" where
  "compareNodes localeCompare a b =
    (if isDirectory a \<noteq> isDirectory b then (if isDirectory a then 1 else - 1)
     else localeCompare (name a) (name b))"

lemma split_slash_nonempty: "split_slash p \<noteq> []"
  by (induction p) auto

lemma join_split_slash: "join ''/'' (split_slash p) = p"
proof (induction p)
  case Nil
  show ?case by simp
next
  case (Cons c cs)
  obtain x xs where sp: "split_slash cs = x # xs"
    using split_slash_nonempty [of cs] by (cases "split_slash cs") auto
  show ?case
  proof (cases "c = CHR ''/''")
    case True
    with Cons sp show ?thesis by simp
  next
    case False
    with Cons sp show ?thesis by (cases xs) auto
  qed
qed

lemma length_join_tl_split:
  assumes "1 < length (split_slash p)"
  shows "length (join ''/'' (tl (split_slash p))) < length p"
proof -
  from assms obtain x y ys where sp: "split_slash p = x # y # ys"
    by (cases "split_slash p"; cases "tl (split_slash p)") auto
  have "length p = length (join ''/'' (split_slash p))"
    by (simp add: join_split_slash)
  with sp show ?thesis by simp
qed

text \<open>
  \<^verbatim>\<open>addNestedNode(parent, path, isTree)\<close> mutates \<^verbatim>\<open>parent\<close> in place; the model returns
  the parent after the call. \<^verbatim>\<open>find\<close> yields a reference to the first child of that
  name, so the child is updated at the position where it was found (or pushed).
\<close>

function addNestedNode ::
  "comparator \<Rightarrow> TreeNode \<Rightarrow> string \<Rightarrow> bool \<Rightarrow>
    TreeNode" where
  "addNestedNode lc parent path isTree =
    (let parts = split_slash path;
         childName = hd parts;
         found = findIndex (\<lambda>c. name c = childName) (children parent);
         cs = (case found of
                 None \<Rightarrow> children parent @ [TreeNode childName (length parts > 1 \<or> isTree) []]
               | Some i \<Rightarrow> children parent);
         i = (case found of None \<Rightarrow> length (children parent) | Some i \<Rightarrow> i);
         child = cs ! i;
         child' = (if length parts > 1
                   then addNestedNode lc (TreeNode (name child) True (children child))
                          (join ''/'' (tl parts)) isTree
                   else child)
     in TreeNode (name parent) (isDirectory parent)
          (array_sort (compareNodes lc) (cs[i := child'])))"
  by pat_completeness auto
termination
  by (relation "measure (\<lambda>(lc, parent, path, isTree). length path)")
    (auto simp: length_join_tl_split)

declare addNestedNode.simps [simp del]

text \<open>The predicate of \<^verbatim>\<open>items.filter\<close> in both builders.\<close>

definition selected :: "string \<Rightarrow> GitHubTreeItem \<Rightarrow> bool" where
  "selected normalizedDirPath item =
    (if normalizedDirPath = [] then True
     else startsWith (itemPath item) (normalizedDirPath @ ''/'') \<or> itemPath item = normalizedDirPath)"

text \<open>
  One iteration of the loop over \<^verbatim>\<open>filteredItems\<close>. \<^verbatim>\<open>childrenMap\<close> is a \<^verbatim>\<open>Map\<close>, which
  keeps its keys in insertion order: an association list, with \<^const>\<open>AList.update\<close> for
  \<^verbatim>\<open>set\<close> and \<^const>\<open>map_of\<close> for \<^verbatim>\<open>has\<close> and \<^verbatim>\<open>get\<close>. The node fetched by \<^verbatim>\<open>get\<close> is
  mutated in place, which is an update of its entry.
\<close>

definition buildTree_step ::
  "comparator \<Rightarrow> string \<Rightarrow> (string \<times> TreeNode) list \<Rightarrow>
    GitHubTreeItem \<Rightarrow> (string \<times> TreeNode) list" where
  "buildTree_step lc normalizedDirPath childrenMap item =
    (if normalizedDirPath \<noteq> [] \<and> itemPath item = normalizedDirPath then childrenMap
     else
       let relativePath =
             (if normalizedDirPath \<noteq> []
              then substring (itemPath item) (length normalizedDirPath + 1) else itemPath item);
           parts = split_slash relativePath;
           childName = hd parts;
           childrenMap =
             (if map_of childrenMap childName = None
              then AList.update childName
                     (TreeNode childName (length parts > 1 \<or> itemType item = tree) [])
                     childrenMap
              else childrenMap)
       in if length parts > 1
          then (case map_of childrenMap childName of
                  None \<Rightarrow> childrenMap
                | Some node \<Rightarrow>
                    AList.update childName
                      (addNestedNode lc (TreeNode (name node) True (children node))
                         (join ''/'' (tl parts)) (itemType item = tree))
                      childrenMap)
          else childrenMap)"

definition buildTree ::
  "comparator \<Rightarrow> GitHubTreeItem list \<Rightarrow> string \<Rightarrow> TreeNode" where
  "buildTree lc items dirPath =
    (let normalizedDirPath = normalizePath dirPath;
         filteredItems = filter (selected normalizedDirPath) items;
         childrenMap = foldl (buildTree_step lc normalizedDirPath) [] filteredItems
     in TreeNode [] True (array_sort (compareNodes lc) (map snd childrenMap)))"

text \<open>The connector glyphs of the plain formatter, as the UTF-8 bytes of its literals.\<close>

definition newline :: string where
  "newline = [CHR 0x0A]"

definition connector_last :: string where
  "connector_last =
    [CHR 0xE2, CHR 0x94, CHR 0x94, CHR 0xE2, CHR 0x94, CHR 0x80, CHR 0xE2, CHR 0x94, CHR 0x80] @ '' ''"

definition connector_mid :: string where
  "connector_mid =
    [CHR 0xE2, CHR 0x94, CHR 0x9C, CHR 0xE2, CHR 0x94, CHR 0x80, CHR 0xE2, CHR 0x94, CHR 0x80] @ '' ''"

definition prefix_last :: string where
  "prefix_last = ''    ''"

definition prefix_mid :: string where
  "prefix_mid = [CHR 0xE2, CHR 0x94, CHR 0x82] @ ''   ''"

text \<open>
  \<^verbatim>\<open>formatNode\<close>: the loop over \<^verbatim>\<open>node.children\<close> is \<open>formatNode_lines\<close>, which returns
  the array \<^verbatim>\<open>lines\<close>; \<^verbatim>\<open>i === node.children.length - 1\<close> holds when no sibling is left.
\<close>

fun formatNode :: "TreeNode \<Rightarrow> string \<Rightarrow> string"
  and formatNode_lines :: "TreeNode list \<Rightarrow> string \<Rightarrow> string list" where
  "formatNode (TreeNode n d cs) pre = join newline (formatNode_lines cs pre)"
| "formatNode_lines [] pre = []"
| "formatNode_lines (child # rest) pre =
    (let isLastChild = (rest = []);
         connector = (if isLastChild then connector_last else connector_mid);
         childPrefix = (if isLastChild then prefix_last else prefix_mid);
         displayName = (if isDirectory child then name child @ ''/'' else name child)
     in (pre @ connector @ displayName) #
        (if length (children child) > 0 then [formatNode child (pre @ childPrefix)] else []) @
        formatNode_lines rest pre)"

text \<open>The root-level loop of \<^verbatim>\<open>formatTree\<close>.\<close>

fun formatTree_lines :: "TreeNode list \<Rightarrow> string list" where
  "formatTree_lines [] = []"
| "formatTree_lines (child # rest) =
    (let displayName = (if isDirectory child then name child @ ''/'' else name child)
     in (if length (children child) > 0 then [displayName, formatNode child []]
         else [displayName]) @
        formatTree_lines rest)"

text \<open>\<^verbatim>\<open>formatTree(treeResponse, dirPath)\<close>, on \<^verbatim>\<open>treeResponse.tree\<close>.\<close>

definition formatTree ::
  "comparator \<Rightarrow> GitHubTreeItem list \<Rightarrow> string \<Rightarrow> string" where
  "formatTree lc items dirPath =
    (if length items = 0 then ''(empty directory)''
     else
       let root = buildTree lc items dirPath
       in if length (children root) = 0 then ''(empty directory)''
          else join newline (formatTree_lines (children root)))"

text \<open>The entry list of the specification's worked example.\<close>

definition example_items :: "GitHubTreeItem list" where
  "example_items =
    [\<lparr>itemPath = ''src'', itemType = tree, itemSize = None\<rparr>,
     \<lparr>itemPath = ''src/index.ts'', itemType = blob, itemSize = Some 100\<rparr>,
     \<lparr>itemPath = ''src/utils.ts'', itemType = blob, itemSize = Some 200\<rparr>,
     \<lparr>itemPath = ''README.md'', itemType = blob, itemSize = Some 50\<rparr>]"

section \<open>The enhanced formatter (src/services/enhanced-tree-formatter.ts)\<close>

text \<open>
  \<^verbatim>\<open>SubTreeOptions\<close>: every field is optional (\<open>None\<close> is \<^verbatim>\<open>undefined\<close>). \<^verbatim>\<open>maxDepth\<close> is a
  non-negative integer here; the tool's input schema only admits positive integers.
\<close>

record SubTreeOptions =
  showSize :: "bool option"
  maxDepth :: "nat option"
  showStats :: "bool option"
  fileExtFilter :: "string list option"

record TreeStats =
  totalFiles :: nat
  totalDirs :: nat
  totalSize :: nat
  filteredExtensions :: "string list option"
  depthLimited :: "nat option"

datatype EnhancedTreeNode =
  EnhancedTreeNode (nameE: string) (isDirectoryE: bool) (sizeE: "nat option")
    (childrenE: "EnhancedTreeNode list") (depthE: nat)

text \<open>
  \<^verbatim>\<open>(bytes / d).toFixed(1)\<close> for \<open>d\<close> a power of two: the quotient is exact, and
  \<^verbatim>\<open>toFixed\<close> takes the nearest multiple of a tenth, the larger one at a tie.
\<close>

definition toFixed1 :: "nat \<Rightarrow> nat \<Rightarrow> string" where
  "toFixed1 bytes d =
    (let n = (10 * bytes + d div 2) div d
     in string_of_nat (n div 10) @ ''.'' @ string_of_nat (n mod 10))"

definition formatSize :: "nat \<Rightarrow> string" where
  "formatSize bytes =
    (if bytes = 0 then ''0B''
     else if bytes < 1024 then string_of_nat bytes @ ''B''
     else if bytes < 1024 * 1024 then toFixed1 bytes 1024 @ ''KB''
     else if bytes < 1024 * 1024 * 1024 then toFixed1 bytes (1024 * 1024) @ ''MB''
     else toFixed1 bytes (1024 * 1024 * 1024) @ ''GB'')"

definition matchesExtFilter :: "string \<Rightarrow> string list option \<Rightarrow> bool" where
  "matchesExtFilter fileName extFilter =
    (case extFilter of
       None \<Rightarrow> True
     | Some exts \<Rightarrow>
         if length exts = 0 then True else list_ex (\<lambda>ext. endsWith fileName ext) exts)"

text \<open>The comparator of both \<^verbatim>\<open>sort\<close> calls: directories first, then files.\<close>

definition compareEnhancedNodes ::
  "comparator \<Rightarrow> EnhancedTreeNode \<Rightarrow> EnhancedTreeNode \<Rightarrow> int" where
  "compareEnhancedNodes localeCompare a b =
    (if isDirectoryE a \<noteq> isDirectoryE b then (if isDirectoryE a then - 1 else 1)
     else localeCompare (nameE a) (nameE b))"

text \<open>
  \<^verbatim>\<open>addNestedEnhancedNode(parent, path, item, depth, options)\<close>, returning the parent
  after the call. The early \<^verbatim>\<open>return\<close> of a filtered file leaves the parent untouched.
\<close>

function addNestedEnhancedNode ::
  "comparator \<Rightarrow> EnhancedTreeNode \<Rightarrow> string \<Rightarrow> GitHubTreeItem \<Rightarrow>
    nat \<Rightarrow> SubTreeOptions \<Rightarrow> EnhancedTreeNode" where
  "addNestedEnhancedNode lc parent path item depth options =
    (let parts = split_slash path;
         childName = hd parts
     in if length parts = 1 \<and> itemType item = blob \<and>
           \<not> matchesExtFilter childName (fileExtFilter options)
        then parent
        else
          let found = findIndex (\<lambda>c. nameE c = childName) (childrenE parent);
              isDir = (length parts > 1 \<or> itemType item = tree);
              cs = (case found of
                      None \<Rightarrow>
                        childrenE parent @
                        [EnhancedTreeNode childName isDir
                           (if isDir then None else itemSize item) [] depth]
                    | Some i \<Rightarrow> childrenE parent);
              i = (case found of None \<Rightarrow> length (childrenE parent) | Some i \<Rightarrow> i);
              child = cs ! i;
              child' =
                (if length parts > 1
                 then addNestedEnhancedNode lc
                        (EnhancedTreeNode (nameE child) True (sizeE child) (childrenE child)
                           (depthE child))
                        (join ''/'' (tl parts)) item (depth + 1) options
                 else child)
          in EnhancedTreeNode (nameE parent) (isDirectoryE parent) (sizeE parent)
               (array_sort (compareEnhancedNodes lc) (cs[i := child'])) (depthE parent))"
  by pat_completeness auto
termination
  by (relation "measure (\<lambda>(lc, parent, path, item, depth, options). length path)")
    (auto simp: length_join_tl_split)

declare addNestedEnhancedNode.simps [simp del]

text \<open>One iteration of the loop over \<^verbatim>\<open>filteredItems\<close> in \<^verbatim>\<open>buildEnhancedTree\<close>.\<close>

definition buildEnhancedTree_step ::
  "comparator \<Rightarrow> string \<Rightarrow> SubTreeOptions \<Rightarrow>
    (string \<times> EnhancedTreeNode) list \<Rightarrow> GitHubTreeItem \<Rightarrow>
    (string \<times> EnhancedTreeNode) list" where
  "buildEnhancedTree_step lc normalizedDirPath options childrenMap item =
    (if normalizedDirPath \<noteq> [] \<and> itemPath item = normalizedDirPath then childrenMap
     else
       let relativePath =
             (if normalizedDirPath \<noteq> []
              then substring (itemPath item) (length normalizedDirPath + 1) else itemPath item);
           parts = split_slash relativePath
       in if length parts = 1 \<and> itemType item = blob \<and>
             \<not> matchesExtFilter (hd parts) (fileExtFilter options)
          then childrenMap
          else
            let childName = hd parts;
                isDir = (length parts > 1 \<or> itemType item = tree);
                childrenMap =
                  (if map_of childrenMap childName = None
                   then AList.update childName
                          (EnhancedTreeNode childName isDir
                             (if isDir then None else itemSize item) [] 1)
                          childrenMap
                   else childrenMap)
            in if length parts > 1
               then (case map_of childrenMap childName of
                       None \<Rightarrow> childrenMap
                     | Some node \<Rightarrow>
                         AList.update childName
                           (addNestedEnhancedNode lc
                              (EnhancedTreeNode (nameE node) True (sizeE node) (childrenE node)
                                 (depthE node))
                              (join ''/'' (tl parts)) item 2 options)
                           childrenMap)
               else childrenMap)"

definition buildEnhancedTree ::
  "comparator \<Rightarrow> GitHubTreeItem list \<Rightarrow> string \<Rightarrow> SubTreeOptions \<Rightarrow>
    EnhancedTreeNode" where
  "buildEnhancedTree lc items dirPath options =
    (let normalizedDirPath = normalizePath dirPath;
         filteredItems = filter (selected normalizedDirPath) items;
         childrenMap = foldl (buildEnhancedTree_step lc normalizedDirPath options) [] filteredItems
     in EnhancedTreeNode [] True None
          (array_sort (compareEnhancedNodes lc) (map snd childrenMap)) 0)"

text \<open>\<^verbatim>\<open>options.maxDepth ?? Infinity\<close>.\<close>

definition maxDepthOf :: "SubTreeOptions \<Rightarrow> enat" where
  "maxDepthOf options = (case maxDepth options of None \<Rightarrow> \<infinity> | Some n \<Rightarrow> enat n)"

text \<open>
  \<^verbatim>\<open>calculateStats(node, options, stats)\<close>: the accumulator \<^verbatim>\<open>stats\<close> is mutated by the
  loop and by the recursive calls; the model threads it through.
\<close>

fun calculateStats :: "EnhancedTreeNode \<Rightarrow> SubTreeOptions \<Rightarrow> TreeStats \<Rightarrow> TreeStats"
  and calculateStats_loop :: "EnhancedTreeNode list \<Rightarrow> SubTreeOptions \<Rightarrow> TreeStats \<Rightarrow> TreeStats"
  where
  "calculateStats (EnhancedTreeNode n d s cs dp) options stats =
    (let stats1 = calculateStats_loop cs options stats;
         stats2 =
           (if (case fileExtFilter options of None \<Rightarrow> False | Some exts \<Rightarrow> length exts > 0)
            then stats1\<lparr>filteredExtensions := fileExtFilter options\<rparr> else stats1);
         stats3 =
           (if maxDepth options \<noteq> None
            then stats2\<lparr>depthLimited := maxDepth options\<rparr> else stats2)
     in stats3)"
| "calculateStats_loop [] options stats = stats"
| "calculateStats_loop (child # rest) options stats =
    (if enat (depthE child) > maxDepthOf options then calculateStats_loop rest options stats
     else if isDirectoryE child
     then calculateStats_loop rest options
            (calculateStats child options (stats\<lparr>totalDirs := totalDirs stats + 1\<rparr>))
     else calculateStats_loop rest options
            (stats\<lparr>totalFiles := totalFiles stats + 1,
                   totalSize := totalSize stats + (case sizeE child of None \<Rightarrow> 0 | Some sz \<Rightarrow> sz)\<rparr>))"

fun calculateDirSize :: "EnhancedTreeNode \<Rightarrow> enat \<Rightarrow> nat"
  and calculateDirSize_loop :: "EnhancedTreeNode list \<Rightarrow> enat \<Rightarrow> nat" where
  "calculateDirSize (EnhancedTreeNode n d s cs dp) maxD = calculateDirSize_loop cs maxD"
| "calculateDirSize_loop [] maxD = 0"
| "calculateDirSize_loop (child # rest) maxD =
    (if enat (depthE child) > maxD then calculateDirSize_loop rest maxD
     else if isDirectoryE child
     then calculateDirSize child maxD + calculateDirSize_loop rest maxD
     else (case sizeE child of None \<Rightarrow> 0 | Some sz \<Rightarrow> sz) + calculateDirSize_loop rest maxD)"

fun countDirFiles :: "EnhancedTreeNode \<Rightarrow> enat \<Rightarrow> nat"
  and countDirFiles_loop :: "EnhancedTreeNode list \<Rightarrow> enat \<Rightarrow> nat" where
  "countDirFiles (EnhancedTreeNode n d s cs dp) maxD = countDirFiles_loop cs maxD"
| "countDirFiles_loop [] maxD = 0"
| "countDirFiles_loop (child # rest) maxD =
    (if enat (depthE child) > maxD then countDirFiles_loop rest maxD
     else if isDirectoryE child
     then countDirFiles child maxD + countDirFiles_loop rest maxD
     else 1 + countDirFiles_loop rest maxD)"

text \<open>
  The literals of the enhanced formatter, as the UTF-8 bytes of the source file. Its
  connector and summary literals hold the code points
  U+00E2 U+201D U+201D U+00E2 U+201D U+20AC U+00E2 U+201D U+20AC (last child),
  U+00E2 U+201D U+0153 U+00E2 U+201D U+20AC U+00E2 U+201D U+20AC (other children),
  U+00E2 U+201D U+201A (continuation) and U+00F0 U+0178 U+201C U+0160 (before
  \<^verbatim>\<open> Summary: \<close>).
\<close>

definition connectorE_last :: string where
  "connectorE_last =
    [CHR 0xC3, CHR 0xA2, CHR 0xE2, CHR 0x80, CHR 0x9D, CHR 0xE2, CHR 0x80, CHR 0x9D,
     CHR 0xC3, CHR 0xA2, CHR 0xE2, CHR 0x80, CHR 0x9D, CHR 0xE2, CHR 0x82, CHR 0xAC,
     CHR 0xC3, CHR 0xA2, CHR 0xE2, CHR 0x80, CHR 0x9D, CHR 0xE2, CHR 0x82, CHR 0xAC] @ '' ''"

definition connectorE_mid :: string where
  "connectorE_mid =
    [CHR 0xC3, CHR 0xA2, CHR 0xE2, CHR 0x80, CHR 0x9D, CHR 0xC5, CHR 0x93,
     CHR 0xC3, CHR 0xA2, CHR 0xE2, CHR 0x80, CHR 0x9D, CHR 0xE2, CHR 0x82, CHR 0xAC,
     CHR 0xC3, CHR 0xA2, CHR 0xE2, CHR 0x80, CHR 0x9D, CHR 0xE2, CHR 0x82, CHR 0xAC] @ '' ''"

definition prefixE_last :: string where
  "prefixE_last = ''    ''"

definition prefixE_mid :: string where
  "prefixE_mid = [CHR 0xC3, CHR 0xA2, CHR 0xE2, CHR 0x80, CHR 0x9D, CHR 0xE2, CHR 0x80, CHR 0x9A] @ ''   ''"

definition summary_head :: string where
  "summary_head =
    [CHR 0xC3, CHR 0xB0, CHR 0xC5, CHR 0xB8, CHR 0xE2, CHR 0x80, CHR 0x9C, CHR 0xC5, CHR 0xA0] @
    '' Summary: ''"

text \<open>
  The display name of a child with its size annotation: the block that
  \<^verbatim>\<open>formatEnhancedNode\<close> (lines 252 to 265) and the root loop of \<^verbatim>\<open>formatSubTree\<close>
  (lines 334 to 347) both contain, word for word.
\<close>

definition displayNameOf ::
  "EnhancedTreeNode \<Rightarrow> SubTreeOptions \<Rightarrow> enat \<Rightarrow> string" where
  "displayNameOf child options maxD =
    (let displayName = (if isDirectoryE child then nameE child @ ''/'' else nameE child)
     in if showSize options = Some True
        then if isDirectoryE child
             then let dirSize = calculateDirSize child maxD;
                      fileCount = countDirFiles child maxD
                  in if fileCount > 0
                     then displayName @ '' ('' @ string_of_nat fileCount @ '' '' @
                          (if fileCount = 1 then ''file'' else ''files'') @ '', '' @
                          formatSize dirSize @ '')''
                     else displayName
             else (case sizeE child of
                     None \<Rightarrow> displayName
                   | Some sz \<Rightarrow> displayName @ '' ('' @ formatSize sz @ '')'')
        else displayName)"

fun formatEnhancedNode :: "EnhancedTreeNode \<Rightarrow> string \<Rightarrow> SubTreeOptions \<Rightarrow> enat \<Rightarrow> string"
  and formatEnhancedNode_lines ::
    "EnhancedTreeNode list \<Rightarrow> string \<Rightarrow> SubTreeOptions \<Rightarrow> enat \<Rightarrow> string list" where
  "formatEnhancedNode (EnhancedTreeNode n d s cs dp) pre options maxD =
    join newline (formatEnhancedNode_lines cs pre options maxD)"
| "formatEnhancedNode_lines [] pre options maxD = []"
| "formatEnhancedNode_lines (child # rest) pre options maxD =
    (if enat (depthE child) > maxD then formatEnhancedNode_lines rest pre options maxD
     else
       let isLastChild = (rest = []);
           connector = (if isLastChild then connectorE_last else connectorE_mid);
           childPrefix = (if isLastChild then prefixE_last else prefixE_mid);
           displayName = displayNameOf child options maxD
       in (pre @ connector @ displayName) #
          (if length (childrenE child) > 0 \<and> enat (depthE child) < maxD
           then (let childFormatted = formatEnhancedNode child (pre @ childPrefix) options maxD
                 in if childFormatted \<noteq> [] then [childFormatted] else [])
           else []) @
          formatEnhancedNode_lines rest pre options maxD)"

definition formatStats :: "TreeStats \<Rightarrow> string" where
  "formatStats stats =
    (let parts1 =
           [summary_head @ string_of_nat (totalDirs stats) @ '' '' @
            (if totalDirs stats = 1 then ''directory'' else ''directories'')];
         parts2 =
           parts1 @
           [string_of_nat (totalFiles stats) @ '' '' @
            (if totalFiles stats = 1 then ''file'' else ''files'')];
         parts3 =
           (if totalSize stats > 0
            then parts2 @ [formatSize (totalSize stats) @ '' total''] else parts2);
         parts4 =
           (case filteredExtensions stats of
              None \<Rightarrow> parts3
            | Some exts \<Rightarrow>
                if length exts > 0
                then parts3 @ [''(filtered: '' @ join '', '' exts @ '')''] else parts3);
         parts5 =
           (case depthLimited stats of
              None \<Rightarrow> parts4
            | Some n \<Rightarrow> parts4 @ [''(depth limited to '' @ string_of_nat n @ '')''])
     in join '', '' parts5)"

text \<open>The root-level loop of \<^verbatim>\<open>formatSubTree\<close>.\<close>

fun formatSubTree_lines ::
  "EnhancedTreeNode list \<Rightarrow> SubTreeOptions \<Rightarrow> enat \<Rightarrow> string list" where
  "formatSubTree_lines [] options maxD = []"
| "formatSubTree_lines (child # rest) options maxD =
    (let displayName = displayNameOf child options maxD
     in (if length (childrenE child) > 0 \<and> enat (depthE child) < maxD
         then displayName #
              (let childFormatted = formatEnhancedNode child [] options maxD
               in if childFormatted \<noteq> [] then [childFormatted] else [])
         else [displayName]) @
        formatSubTree_lines rest options maxD)"

definition emptyStats :: TreeStats where
  "emptyStats =
    \<lparr>totalFiles = 0, totalDirs = 0, totalSize = 0, filteredExtensions = None,
     depthLimited = None\<rparr>"

text \<open>\<^verbatim>\<open>formatSubTree(treeResponse, dirPath, options)\<close>, on \<^verbatim>\<open>treeResponse.tree\<close>.\<close>

definition formatSubTree ::
  "comparator \<Rightarrow> GitHubTreeItem list \<Rightarrow> string \<Rightarrow> SubTreeOptions \<Rightarrow>
    string" where
  "formatSubTree lc items dirPath options =
    (if length items = 0 then ''(empty directory)''
     else
       let root = buildEnhancedTree lc items dirPath options
       in if length (childrenE root) = 0 then ''(empty directory)''
          else
            let maxD = maxDepthOf options;
                result = join newline (formatSubTree_lines (childrenE root) options maxD)
            in if showStats options \<noteq> Some False
               then result @ newline @ newline @
                    formatStats (calculateStats root options emptyStats)
               else result)"

text \<open>\<^verbatim>\<open>options = {}\<close>, the default parameter.\<close>

definition defaultOptions :: SubTreeOptions where
  "defaultOptions =
    \<lparr>showSize = None, maxDepth = None, showStats = None, fileExtFilter = None\<rparr>"

section \<open>The builders as folds over forests\<close>

subsection \<open>Splitting and joining paths\<close>

lemma split_slash_no_slash: "s \<in> set (split_slash p) \<Longrightarrow> CHR ''/'' \<notin> set s"
proof (induction p arbitrary: s)
  case Nil
  then show ?case by simp
next
  case (Cons c cs)
  obtain x xs where sp: "split_slash cs = x # xs"
    using split_slash_nonempty [of cs] by (cases "split_slash cs") auto
  from Cons.prems Cons.IH [of x] Cons.IH [of s] sp show ?case
    by (auto split: if_splits)
qed

lemma split_slash_segment: "CHR ''/'' \<notin> set x \<Longrightarrow> split_slash x = [x]"
  by (induction x) auto

lemma split_slash_append:
  "CHR ''/'' \<notin> set x \<Longrightarrow> split_slash (x @ CHR ''/'' # r) = x # split_slash r"
  by (induction x) auto

lemma split_slash_join:
  "ps \<noteq> [] \<Longrightarrow> \<forall>s\<in>set ps. CHR ''/'' \<notin> set s \<Longrightarrow> split_slash (join ''/'' ps) = ps"
proof (induction ps rule: induct_list012)
  case (3 x y ys)
  then show ?case by (simp add: split_slash_append)
qed (simp_all add: split_slash_segment)

lemma split_slash_join_tl:
  assumes "1 < length (split_slash p)"
  shows "split_slash (join ''/'' (tl (split_slash p))) = tl (split_slash p)"
proof -
  from assms have ne: "tl (split_slash p) \<noteq> []"
    by (cases "split_slash p") auto
  have "\<forall>s\<in>set (tl (split_slash p)). CHR ''/'' \<notin> set s"
    using split_slash_no_slash [of _ p] by (metis list.set_sel(2) split_slash_nonempty)
  with ne show ?thesis by (rule split_slash_join)
qed

fun insertParts ::
  "comparator \<Rightarrow> TreeNode list \<Rightarrow> string list \<Rightarrow> bool \<Rightarrow>
    TreeNode list" where
  "insertParts lc cs [] isTree = cs"
| "insertParts lc cs (n # rest) isTree =
    (let found = findIndex (\<lambda>c. name c = n) cs;
         cs1 = (case found of
                  None \<Rightarrow> cs @ [TreeNode n (rest \<noteq> [] \<or> isTree) []]
                | Some i \<Rightarrow> cs);
         i = (case found of None \<Rightarrow> length cs | Some i \<Rightarrow> i);
         child = cs1 ! i;
         child' = (if rest \<noteq> []
                   then TreeNode (name child) True (insertParts lc (children child) rest isTree)
                   else child)
     in array_sort (compareNodes lc) (cs1[i := child']))"

lemma addNestedNode_insertParts:
  "addNestedNode lc parent path isTree =
    TreeNode (name parent) (isDirectory parent)
      (insertParts lc (children parent) (split_slash path) isTree)"
proof (induction "length path" arbitrary: parent path rule: less_induct)
  case less
  obtain n rest where sp: "split_slash path = n # rest"
    using split_slash_nonempty [of path] by (cases "split_slash path") auto
  show ?case
  proof (cases "rest = []")
    case True
    with sp show ?thesis
      by (subst addNestedNode.simps) (simp add: Let_def split: option.splits)
  next
    case False
    with sp have len: "1 < length (split_slash path)" by (cases rest) auto
    have sj: "split_slash (join ''/'' rest) = rest"
      using split_slash_join_tl [OF len] sp by simp
    have lt: "length (join ''/'' rest) < length path"
      using length_join_tl_split [OF len] sp by simp
    show ?thesis
      using False sp sj
      by (subst addNestedNode.simps) (simp add: Let_def less [OF lt] split: option.splits)
  qed
qed


subsection \<open>Sorting and searching\<close>

lemma set_insert_sorted: "set (insert_sorted cmp x xs) = insert x (set xs)"
  by (induction xs) auto

lemma set_array_sort: "set (array_sort cmp xs) = set xs"
  by (induction xs) (simp_all add: array_sort_def set_insert_sorted)

lemma length_insert_sorted: "length (insert_sorted cmp x xs) = Suc (length xs)"
  by (induction xs) auto

lemma length_array_sort: "length (array_sort cmp xs) = length xs"
  by (induction xs) (simp_all add: array_sort_def length_insert_sorted)

lemma array_sort_Nil: "array_sort cmp [] = []"
  by (simp add: array_sort_def)

lemma array_sort_eq_Nil: "array_sort cmp xs = [] \<longleftrightarrow> xs = []"
  using length_array_sort [of cmp xs] by (metis length_0_conv)

lemma mset_insert_sorted_map:
  "set (insert_sorted cmp x xs) = insert x (set xs) \<and>
   distinct (map f (insert_sorted cmp x xs)) = distinct (map f (x # xs))"
  by (induction xs) (auto simp: set_insert_sorted)

lemma distinct_map_array_sort: "distinct (map f (array_sort cmp xs)) = distinct (map f xs)"
proof (induction xs)
  case Nil
  show ?case by (simp add: array_sort_def)
next
  case (Cons x xs)
  have "distinct (map f (array_sort cmp (x # xs))) =
        distinct (map f (x # array_sort cmp xs))"
    using mset_insert_sorted_map [of cmp x "array_sort cmp xs" f] by (simp add: array_sort_def)
  with Cons show ?case by (simp add: set_array_sort)
qed

lemma findIndex_None: "findIndex P xs = None \<longleftrightarrow> (\<forall>x\<in>set xs. \<not> P x)"
  by (induction xs) auto

lemma findIndex_Some:
  "findIndex P xs = Some i \<Longrightarrow> i < length xs \<and> P (xs ! i)"
  by (induction xs arbitrary: i) (auto split: if_splits)

subsection \<open>The plain builder as a fold over forests\<close>

text \<open>
  What one call of \<^verbatim>\<open>addNestedNode\<close> leaves in \<^verbatim>\<open>parent.children\<close> before the final
  \<^verbatim>\<open>sort\<close>, and what one iteration of the loop of \<^verbatim>\<open>buildTree\<close> leaves in the values
  of \<^verbatim>\<open>childrenMap\<close>: the child named by the first segment is found or appended, and
  with further segments it is made a directory and the rest is inserted below it.
\<close>

definition upsert ::
  "comparator \<Rightarrow> TreeNode list \<Rightarrow> string list \<Rightarrow> bool \<Rightarrow>
    TreeNode list" where
  "upsert lc cs parts isTree =
    (case parts of
       [] \<Rightarrow> cs
     | n # rest \<Rightarrow>
         let found = findIndex (\<lambda>c. name c = n) cs;
             cs1 = (case found of
                      None \<Rightarrow> cs @ [TreeNode n (rest \<noteq> [] \<or> isTree) []]
                    | Some i \<Rightarrow> cs);
             i = (case found of None \<Rightarrow> length cs | Some i \<Rightarrow> i);
             child = cs1 ! i;
             child' = (if rest \<noteq> []
                       then TreeNode (name child) True (insertParts lc (children child) rest isTree)
                       else child)
         in cs1[i := child'])"

lemma insertParts_upsert:
  "parts \<noteq> [] \<Longrightarrow> insertParts lc cs parts isTree = array_sort (compareNodes lc) (upsert lc cs parts isTree)"
  by (cases parts) (simp_all add: upsert_def Let_def)

lemma upsert_found:
  "findIndex (\<lambda>c. name c = n) cs = Some i \<Longrightarrow>
    upsert lc cs (n # rest) isTree =
      cs[i := (if rest \<noteq> []
               then TreeNode (name (cs ! i)) True (insertParts lc (children (cs ! i)) rest isTree)
               else cs ! i)]"
  by (simp add: upsert_def Let_def)

lemma upsert_new:
  "findIndex (\<lambda>c. name c = n) cs = None \<Longrightarrow>
    upsert lc cs (n # rest) isTree =
      cs @ [if rest \<noteq> [] then TreeNode n True (insertParts lc [] rest isTree)
            else TreeNode n isTree []]"
  by (simp add: upsert_def Let_def nth_append)

declare insertParts.simps [simp del]

definition relativeParts :: "string \<Rightarrow> GitHubTreeItem \<Rightarrow> string list" where
  "relativeParts normalizedDirPath item =
    split_slash
      (if normalizedDirPath \<noteq> []
       then substring (itemPath item) (length normalizedDirPath + 1) else itemPath item)"

definition isMarker :: "string \<Rightarrow> GitHubTreeItem \<Rightarrow> bool" where
  "isMarker normalizedDirPath item \<longleftrightarrow>
    normalizedDirPath \<noteq> [] \<and> itemPath item = normalizedDirPath"

definition forest_step ::
  "comparator \<Rightarrow> string \<Rightarrow> TreeNode list \<Rightarrow> GitHubTreeItem \<Rightarrow>
    TreeNode list" where
  "forest_step lc normalizedDirPath cs item =
    (if isMarker normalizedDirPath item then cs
     else upsert lc cs (relativeParts normalizedDirPath item) (itemType item = tree))"

definition keys_are_names :: "(string \<times> TreeNode) list \<Rightarrow> bool" where
  "keys_are_names m \<longleftrightarrow> (\<forall>kv\<in>set m. name (snd kv) = fst kv)"

lemma values_update:
  "keys_are_names m \<Longrightarrow>
    map snd (AList.update k v m) =
      (case findIndex (\<lambda>c. name c = k) (map snd m) of
         None \<Rightarrow> map snd m @ [v]
       | Some i \<Rightarrow> (map snd m)[i := v])"
  by (induction m) (auto simp: keys_are_names_def split: option.splits)

lemma map_of_findIndex:
  "keys_are_names m \<Longrightarrow>
    map_of m k =
      (case findIndex (\<lambda>c. name c = k) (map snd m) of
         None \<Rightarrow> None
       | Some i \<Rightarrow> Some (map snd m ! i))"
  by (induction m) (auto simp: keys_are_names_def split: option.splits)

lemma keys_are_names_update:
  "keys_are_names m \<Longrightarrow> name v = k \<Longrightarrow> keys_are_names (AList.update k v m)"
  by (induction m) (auto simp: keys_are_names_def)

lemma name_addNestedNode: "name (addNestedNode lc parent path isTree) = name parent"
  by (simp add: addNestedNode_insertParts)

lemma relativeParts_nonempty: "relativeParts ndp item \<noteq> []"
  by (simp add: relativeParts_def split_slash_nonempty)

lemma tl_nonempty_length: "tl xs \<noteq> [] \<longleftrightarrow> 1 < length xs"
  by (cases xs; cases "tl xs") auto

lemma relativeParts_tl:
  "tl (relativeParts ndp item) \<noteq> [] \<Longrightarrow>
    split_slash (join ''/'' (tl (relativeParts ndp item))) = tl (relativeParts ndp item)"
  unfolding relativeParts_def tl_nonempty_length by (rule split_slash_join_tl)

lemma findIndex_append_new:
  "findIndex P xs = None \<Longrightarrow> P x \<Longrightarrow> findIndex P (xs @ [x]) = Some (length xs)"
  by (induction xs) (auto split: if_splits)

lemma buildTree_step_values:
  assumes km: "keys_are_names m"
  shows "map snd (buildTree_step lc ndp m item) = forest_step lc ndp (map snd m) item \<and>
         keys_are_names (buildTree_step lc ndp m item)"
proof (cases "isMarker ndp item")
  case True
  with km show ?thesis
    by (simp add: buildTree_step_def forest_step_def isMarker_def)
next
  case False
  define parts where "parts = relativeParts ndp item"
  define n where "n = hd parts"
  define rest where "rest = tl parts"
  define t where "t = (itemType item = tree)"
  define new where "new = TreeNode n (rest \<noteq> [] \<or> t) []"
  let ?vs = "map snd m"
  have parts: "parts = n # rest"
    using relativeParts_nonempty [of ndp item] by (simp add: parts_def n_def rest_def)
  have len: "1 < length parts \<longleftrightarrow> rest \<noteq> []"
    by (simp add: rest_def tl_nonempty_length)
  have sj: "rest \<noteq> [] \<Longrightarrow> split_slash (join ''/'' rest) = rest"
    using relativeParts_tl [of ndp item] by (simp add: rest_def parts_def)
  have step: "buildTree_step lc ndp m item =
    (let m1 = (if map_of m n = None then AList.update n new m else m)
     in if rest \<noteq> []
        then (case map_of m1 n of
                None \<Rightarrow> m1
              | Some node \<Rightarrow>
                  AList.update n
                    (addNestedNode lc (TreeNode (name node) True (children node))
                       (join ''/'' rest) t) m1)
        else m1)"
    unfolding parts_def n_def rest_def t_def new_def relativeParts_def buildTree_step_def Let_def
      tl_nonempty_length
    using False by (cases "ndp = []") (simp_all add: isMarker_def)
  have fstep: "forest_step lc ndp ?vs item = upsert lc ?vs (n # rest) t"
    using False parts by (simp add: forest_step_def parts_def t_def)
  show ?thesis
  proof (cases "findIndex (\<lambda>c. name c = n) ?vs")
    case None
    then have mo: "map_of m n = None"
      using km by (simp add: map_of_findIndex)
    let ?m1 = "AList.update n new m"
    have k1: "keys_are_names ?m1"
      using km by (simp add: new_def keys_are_names_update)
    have v1: "map snd ?m1 = ?vs @ [new]"
      using km None by (simp add: values_update)
    have f1: "findIndex (\<lambda>c. name c = n) (?vs @ [new]) = Some (length ?vs)"
      using None by (simp add: findIndex_append_new new_def)
    show ?thesis
    proof (cases "rest = []")
      case True
      with mo k1 v1 None show ?thesis
        unfolding step fstep
        by (simp add: upsert_new new_def)
    next
      case rne: False
      have mo1: "map_of ?m1 n = Some new"
        using k1 f1 by (simp add: map_of_findIndex v1 nth_append)
      define node' where
        "node' = addNestedNode lc (TreeNode (name new) True (children new)) (join ''/'' rest) t"
      have nn: "name node' = n"
        by (simp add: node'_def name_addNestedNode new_def)
      have "map snd (AList.update n node' ?m1) = ?vs @ [node']"
        using km None by (simp add: values_update)
      moreover have "keys_are_names (AList.update n node' ?m1)"
        using k1 nn by (rule keys_are_names_update)
      moreover have "upsert lc ?vs (n # rest) t = ?vs @ [node']"
        using None rne sj
        by (simp add: upsert_new node'_def new_def addNestedNode_insertParts)
      ultimately show ?thesis
        using mo mo1 rne unfolding step fstep
        by (simp add: node'_def [symmetric])
    qed
  next
    case (Some i)
    then have mo: "map_of m n = Some (?vs ! i)"
      using km by (simp add: map_of_findIndex)
    from Some have i: "i < length ?vs" and ni: "name (?vs ! i) = n"
      using findIndex_Some [of "\<lambda>c. name c = n" ?vs i] by auto
    show ?thesis
    proof (cases "rest = []")
      case True
      with mo km Some show ?thesis
        unfolding step fstep by (simp add: upsert_found)
    next
      case rne: False
      define node' where
        "node' = addNestedNode lc (TreeNode (name (?vs ! i)) True (children (?vs ! i)))
                   (join ''/'' rest) t"
      have nn: "name node' = n"
        by (simp add: node'_def name_addNestedNode ni)
      have "map snd (AList.update n node' m) = ?vs[i := node']"
        using km Some by (simp add: values_update)
      moreover have "keys_are_names (AList.update n node' m)"
        using km nn by (rule keys_are_names_update)
      moreover have "upsert lc ?vs (n # rest) t = ?vs[i := node']"
        using Some rne sj
        by (simp add: upsert_found node'_def addNestedNode_insertParts)
      ultimately show ?thesis
        using mo rne unfolding step fstep
        by (simp add: node'_def [symmetric])
    qed
  qed
qed

definition buildForest ::
  "comparator \<Rightarrow> string \<Rightarrow> GitHubTreeItem list \<Rightarrow>
    TreeNode list" where
  "buildForest lc normalizedDirPath items = foldl (forest_step lc normalizedDirPath) [] items"

lemma foldl_buildTree_step:
  "keys_are_names m \<Longrightarrow>
    map snd (foldl (buildTree_step lc ndp) m items) = foldl (forest_step lc ndp) (map snd m) items"
proof (induction items arbitrary: m)
  case Nil
  show ?case by simp
next
  case (Cons item items)
  from buildTree_step_values [OF Cons.prems, of lc ndp item]
    Cons.IH [of "buildTree_step lc ndp m item"]
  show ?case by simp
qed

lemma buildTree_forest:
  "buildTree lc items dirPath =
    TreeNode [] True
      (array_sort (compareNodes lc)
         (buildForest lc (normalizePath dirPath) (filter (selected (normalizePath dirPath)) items)))"
  using foldl_buildTree_step [of "[]"]
  by (simp add: buildTree_def buildForest_def Let_def keys_are_names_def)

subsection \<open>The enhanced builder as a fold over forests\<close>

fun insertPartsE ::
  "comparator \<Rightarrow> EnhancedTreeNode list \<Rightarrow> string list \<Rightarrow>
    GitHubTreeItem \<Rightarrow> nat \<Rightarrow> SubTreeOptions \<Rightarrow>
    EnhancedTreeNode list" where
  "insertPartsE lc cs [] item depth options = cs"
| "insertPartsE lc cs (n # rest) item depth options =
    (if rest = [] \<and> itemType item = blob \<and> \<not> matchesExtFilter n (fileExtFilter options)
     then cs
     else
       let found = findIndex (\<lambda>c. nameE c = n) cs;
           isDir = (rest \<noteq> [] \<or> itemType item = tree);
           cs1 = (case found of
                    None \<Rightarrow>
                      cs @ [EnhancedTreeNode n isDir (if isDir then None else itemSize item) []
                              depth]
                  | Some i \<Rightarrow> cs);
           i = (case found of None \<Rightarrow> length cs | Some i \<Rightarrow> i);
           child = cs1 ! i;
           child' =
             (if rest \<noteq> []
              then EnhancedTreeNode (nameE child) True (sizeE child)
                     (insertPartsE lc (childrenE child) rest item (depth + 1) options)
                     (depthE child)
              else child)
       in array_sort (compareEnhancedNodes lc) (cs1[i := child']))"

lemma addNestedEnhancedNode_insertPartsE:
  "addNestedEnhancedNode lc parent path item depth options =
    EnhancedTreeNode (nameE parent) (isDirectoryE parent) (sizeE parent)
      (insertPartsE lc (childrenE parent) (split_slash path) item depth options) (depthE parent)"
proof (induction "length path" arbitrary: parent path depth rule: less_induct)
  case less
  obtain n rest where sp: "split_slash path = n # rest"
    using split_slash_nonempty [of path] by (cases "split_slash path") auto
  show ?case
  proof (cases "rest = []")
    case True
    with sp show ?thesis
      by (subst addNestedEnhancedNode.simps) (simp add: Let_def split: option.splits)
  next
    case False
    with sp have len: "1 < length (split_slash path)" by (cases rest) auto
    have sj: "split_slash (join ''/'' rest) = rest"
      using split_slash_join_tl [OF len] sp by simp
    have lt: "length (join ''/'' rest) < length path"
      using length_join_tl_split [OF len] sp by simp
    show ?thesis
      using False sp sj
      by (subst addNestedEnhancedNode.simps) (simp add: Let_def less [OF lt] split: option.splits)
  qed
qed

text \<open>The test that drops a file leaf: one segment, a blob, no listed extension.\<close>

definition filteredOut ::
  "SubTreeOptions \<Rightarrow> string list \<Rightarrow> GitHubTreeItem \<Rightarrow> bool" where
  "filteredOut options parts item \<longleftrightarrow>
    tl parts = [] \<and> itemType item = blob \<and>
    \<not> matchesExtFilter (hd parts) (fileExtFilter options)"

definition upsertE ::
  "comparator \<Rightarrow> EnhancedTreeNode list \<Rightarrow> string list \<Rightarrow>
    GitHubTreeItem \<Rightarrow> nat \<Rightarrow> SubTreeOptions \<Rightarrow>
    EnhancedTreeNode list" where
  "upsertE lc cs parts item depth options =
    (case parts of
       [] \<Rightarrow> cs
     | n # rest \<Rightarrow>
         let found = findIndex (\<lambda>c. nameE c = n) cs;
             isDir = (rest \<noteq> [] \<or> itemType item = tree);
             cs1 = (case found of
                      None \<Rightarrow>
                        cs @ [EnhancedTreeNode n isDir (if isDir then None else itemSize item) []
                                depth]
                    | Some i \<Rightarrow> cs);
             i = (case found of None \<Rightarrow> length cs | Some i \<Rightarrow> i);
             child = cs1 ! i;
             child' =
               (if rest \<noteq> []
                then EnhancedTreeNode (nameE child) True (sizeE child)
                       (insertPartsE lc (childrenE child) rest item (depth + 1) options)
                       (depthE child)
                else child)
         in cs1[i := child'])"

lemma insertPartsE_upsertE:
  "parts \<noteq> [] \<Longrightarrow>
    insertPartsE lc cs parts item depth options =
      (if filteredOut options parts item then cs
       else array_sort (compareEnhancedNodes lc) (upsertE lc cs parts item depth options))"
  by (cases parts) (simp_all add: upsertE_def filteredOut_def Let_def)

lemma upsertE_found:
  "findIndex (\<lambda>c. nameE c = n) cs = Some i \<Longrightarrow>
    upsertE lc cs (n # rest) item depth options =
      cs[i := (if rest \<noteq> []
               then EnhancedTreeNode (nameE (cs ! i)) True (sizeE (cs ! i))
                      (insertPartsE lc (childrenE (cs ! i)) rest item (depth + 1) options)
                      (depthE (cs ! i))
               else cs ! i)]"
  by (simp add: upsertE_def Let_def)

lemma upsertE_new:
  "findIndex (\<lambda>c. nameE c = n) cs = None \<Longrightarrow>
    upsertE lc cs (n # rest) item depth options =
      cs @ [if rest \<noteq> []
            then EnhancedTreeNode n True None (insertPartsE lc [] rest item (depth + 1) options) depth
            else EnhancedTreeNode n (itemType item = tree)
                   (if itemType item = tree then None else itemSize item) [] depth]"
  by (simp add: upsertE_def Let_def nth_append)

declare insertPartsE.simps [simp del]

definition forest_stepE ::
  "comparator \<Rightarrow> string \<Rightarrow> SubTreeOptions \<Rightarrow>
    EnhancedTreeNode list \<Rightarrow> GitHubTreeItem \<Rightarrow> EnhancedTreeNode list"
  where
  "forest_stepE lc normalizedDirPath options cs item =
    (if isMarker normalizedDirPath item then cs
     else if filteredOut options (relativeParts normalizedDirPath item) item then cs
     else upsertE lc cs (relativeParts normalizedDirPath item) item 1 options)"

definition keys_are_namesE :: "(string \<times> EnhancedTreeNode) list \<Rightarrow> bool" where
  "keys_are_namesE m \<longleftrightarrow> (\<forall>kv\<in>set m. nameE (snd kv) = fst kv)"

lemma values_updateE:
  "keys_are_namesE m \<Longrightarrow>
    map snd (AList.update k v m) =
      (case findIndex (\<lambda>c. nameE c = k) (map snd m) of
         None \<Rightarrow> map snd m @ [v]
       | Some i \<Rightarrow> (map snd m)[i := v])"
  by (induction m) (auto simp: keys_are_namesE_def split: option.splits)

lemma map_of_findIndexE:
  "keys_are_namesE m \<Longrightarrow>
    map_of m k =
      (case findIndex (\<lambda>c. nameE c = k) (map snd m) of
         None \<Rightarrow> None
       | Some i \<Rightarrow> Some (map snd m ! i))"
  by (induction m) (auto simp: keys_are_namesE_def split: option.splits)

lemma keys_are_namesE_update:
  "keys_are_namesE m \<Longrightarrow> nameE v = k \<Longrightarrow> keys_are_namesE (AList.update k v m)"
  by (induction m) (auto simp: keys_are_namesE_def)

lemma nameE_addNestedEnhancedNode:
  "nameE (addNestedEnhancedNode lc parent path item depth options) = nameE parent"
  by (simp add: addNestedEnhancedNode_insertPartsE)

lemma split_slash_one: "length (split_slash p) = 1 \<longleftrightarrow> tl (split_slash p) = []"
  using split_slash_nonempty [of p] by (cases "split_slash p") auto

lemma length_gt_one_tl: "Suc 0 < length xs \<longleftrightarrow> tl xs \<noteq> []"
  by (cases xs; cases "tl xs") auto

lemma split_slash_one': "length (split_slash p) = Suc 0 \<longleftrightarrow> tl (split_slash p) = []"
  using split_slash_one [of p] by simp

lemma buildEnhancedTree_step_values:
  assumes km: "keys_are_namesE m"
  shows "map snd (buildEnhancedTree_step lc ndp options m item) =
           forest_stepE lc ndp options (map snd m) item \<and>
         keys_are_namesE (buildEnhancedTree_step lc ndp options m item)"
proof (cases "isMarker ndp item \<or> filteredOut options (relativeParts ndp item) item")
  case True
  with km show ?thesis
    unfolding buildEnhancedTree_step_def forest_stepE_def isMarker_def filteredOut_def
      relativeParts_def Let_def split_slash_one
    by (cases "ndp = []") auto
next
  case False
  define parts where "parts = relativeParts ndp item"
  define n where "n = hd parts"
  define rest where "rest = tl parts"
  define isDir where "isDir = (rest \<noteq> [] \<or> itemType item = tree)"
  define new where
    "new = EnhancedTreeNode n isDir (if isDir then None else itemSize item) [] 1"
  let ?vs = "map snd m"
  have parts: "parts = n # rest"
    using relativeParts_nonempty [of ndp item] by (simp add: parts_def n_def rest_def)
  have sj: "rest \<noteq> [] \<Longrightarrow> split_slash (join ''/'' rest) = rest"
    using relativeParts_tl [of ndp item] by (simp add: rest_def parts_def)
  have step: "buildEnhancedTree_step lc ndp options m item =
    (let m1 = (if map_of m n = None then AList.update n new m else m)
     in if rest \<noteq> []
        then (case map_of m1 n of
                None \<Rightarrow> m1
              | Some node \<Rightarrow>
                  AList.update n
                    (addNestedEnhancedNode lc
                       (EnhancedTreeNode (nameE node) True (sizeE node) (childrenE node)
                          (depthE node))
                       (join ''/'' rest) item 2 options) m1)
        else m1)"
    using False
    unfolding parts_def n_def rest_def isDir_def new_def
    by (cases "ndp = []"; cases "itemType item"; cases "tl (relativeParts ndp item) = []")
      (simp_all add: relativeParts_def buildEnhancedTree_step_def Let_def filteredOut_def
        split_slash_one' isMarker_def length_gt_one_tl cong: option.case_cong)
  have fstep: "forest_stepE lc ndp options ?vs item = upsertE lc ?vs (n # rest) item 1 options"
    using False parts by (simp add: forest_stepE_def parts_def)
  show ?thesis
  proof (cases "findIndex (\<lambda>c. nameE c = n) ?vs")
    case None
    then have mo: "map_of m n = None"
      using km by (simp add: map_of_findIndexE)
    let ?m1 = "AList.update n new m"
    have k1: "keys_are_namesE ?m1"
      using km by (simp add: new_def keys_are_namesE_update)
    have v1: "map snd ?m1 = ?vs @ [new]"
      using km None by (simp add: values_updateE)
    have f1: "findIndex (\<lambda>c. nameE c = n) (?vs @ [new]) = Some (length ?vs)"
      using None by (simp add: findIndex_append_new new_def)
    show ?thesis
    proof (cases "rest = []")
      case True
      with mo k1 v1 None show ?thesis
        unfolding step fstep
        by (simp add: upsertE_new new_def isDir_def)
    next
      case rne: False
      have mo1: "map_of ?m1 n = Some new"
        using k1 f1 by (simp add: map_of_findIndexE v1 nth_append)
      define node' where
        "node' = addNestedEnhancedNode lc
                   (EnhancedTreeNode (nameE new) True (sizeE new) (childrenE new) (depthE new))
                   (join ''/'' rest) item 2 options"
      have nn: "nameE node' = n"
        by (simp add: node'_def nameE_addNestedEnhancedNode new_def)
      have "map snd (AList.update n node' ?m1) = ?vs @ [node']"
        using km None by (simp add: values_updateE)
      moreover have "keys_are_namesE (AList.update n node' ?m1)"
        using k1 nn by (rule keys_are_namesE_update)
      moreover have "upsertE lc ?vs (n # rest) item 1 options = ?vs @ [node']"
        using None rne sj
        by (simp add: upsertE_new node'_def new_def isDir_def
            addNestedEnhancedNode_insertPartsE numeral_2_eq_2)
      ultimately show ?thesis
        using mo mo1 rne unfolding step fstep
        by (simp add: node'_def [symmetric])
    qed
  next
    case (Some i)
    then have mo: "map_of m n = Some (?vs ! i)"
      using km by (simp add: map_of_findIndexE)
    from Some have i: "i < length ?vs" and ni: "nameE (?vs ! i) = n"
      using findIndex_Some [of "\<lambda>c. nameE c = n" ?vs i] by auto
    show ?thesis
    proof (cases "rest = []")
      case True
      with mo km Some show ?thesis
        unfolding step fstep by (simp add: upsertE_found)
    next
      case rne: False
      define node' where
        "node' = addNestedEnhancedNode lc
                   (EnhancedTreeNode (nameE (?vs ! i)) True (sizeE (?vs ! i))
                      (childrenE (?vs ! i)) (depthE (?vs ! i)))
                   (join ''/'' rest) item 2 options"
      have nn: "nameE node' = n"
        by (simp add: node'_def nameE_addNestedEnhancedNode ni)
      have "map snd (AList.update n node' m) = ?vs[i := node']"
        using km Some by (simp add: values_updateE)
      moreover have "keys_are_namesE (AList.update n node' m)"
        using km nn by (rule keys_are_namesE_update)
      moreover have "upsertE lc ?vs (n # rest) item 1 options = ?vs[i := node']"
        using Some rne sj
        by (simp add: upsertE_found node'_def addNestedEnhancedNode_insertPartsE
            numeral_2_eq_2)
      ultimately show ?thesis
        using mo rne unfolding step fstep
        by (simp add: node'_def [symmetric])
    qed
  qed
qed

definition buildForestE ::
  "comparator \<Rightarrow> string \<Rightarrow> SubTreeOptions \<Rightarrow> GitHubTreeItem list \<Rightarrow>
    EnhancedTreeNode list" where
  "buildForestE lc normalizedDirPath options items =
    foldl (forest_stepE lc normalizedDirPath options) [] items"

lemma foldl_buildEnhancedTree_step:
  "keys_are_namesE m \<Longrightarrow>
    map snd (foldl (buildEnhancedTree_step lc ndp options) m items) =
      foldl (forest_stepE lc ndp options) (map snd m) items"
proof (induction items arbitrary: m)
  case Nil
  show ?case by simp
next
  case (Cons item items)
  from buildEnhancedTree_step_values [OF Cons.prems, of lc ndp options item]
    Cons.IH [of "buildEnhancedTree_step lc ndp options m item"]
  show ?case by simp
qed

lemma buildEnhancedTree_forest:
  "buildEnhancedTree lc items dirPath options =
    EnhancedTreeNode [] True None
      (array_sort (compareEnhancedNodes lc)
         (buildForestE lc (normalizePath dirPath) options
            (filter (selected (normalizePath dirPath)) items))) 0"
  using foldl_buildEnhancedTree_step [of "[]"]
  by (simp add: buildEnhancedTree_def buildForestE_def Let_def keys_are_namesE_def)

section \<open>The rendered rows\<close>

lemma join_Cons: "join s (x # ys) = (if ys = [] then x else x @ s @ join s ys)"
  by (cases ys) simp_all

lemma join_append:
  "join s (xs @ ys) =
    (if xs = [] then join s ys else if ys = [] then join s xs else join s xs @ s @ join s ys)"
  by (induction xs rule: induct_list012) (simp_all add: join_Cons)

text \<open>
  The nodes a formatter visits, in the order of their lines, each with the text that
  precedes its display name (continuation prefixes and connector).
\<close>

fun rows :: "TreeNode list \<Rightarrow> string \<Rightarrow> (string \<times> TreeNode) list" where
  "rows [] pre = []"
| "rows (TreeNode n d cs # rest) pre =
    (pre @ (if rest = [] then connector_last else connector_mid), TreeNode n d cs) #
    rows cs (pre @ (if rest = [] then prefix_last else prefix_mid)) @ rows rest pre"

fun rows_top :: "TreeNode list \<Rightarrow> (string \<times> TreeNode) list" where
  "rows_top [] = []"
| "rows_top (child # rest) = ([], child) # rows (children child) [] @ rows_top rest"

definition displayName :: "TreeNode \<Rightarrow> string" where
  "displayName c = (if isDirectory c then name c @ ''/'' else name c)"

definition renderRow :: "string \<times> TreeNode \<Rightarrow> string" where
  "renderRow r = fst r @ displayName (snd r)"

lemma renderRow_pair: "renderRow (p, c) = p @ displayName c"
  by (simp add: renderRow_def)

lemma rows_eq_Nil: "rows cs pre = [] \<longleftrightarrow> cs = []"
  by (induction cs pre rule: rows.induct) auto

lemma formatNode_lines_eq_Nil: "formatNode_lines cs pre = [] \<longleftrightarrow> cs = []"
  by (cases cs) (simp_all add: Let_def)

lemma formatNode_children:
  "formatNode c pre = join newline (formatNode_lines (children c) pre)"
  by (cases c) simp

lemma formatNode_lines_rows:
  "join newline (formatNode_lines cs pre) = join newline (map renderRow (rows cs pre))"
proof (induction cs pre rule: rows.induct)
  case (1 pre)
  show ?case by simp
next
  case (2 n d cs rest pre)
  let ?p = "pre @ (if rest = [] then prefix_last else prefix_mid)"
  have a: "formatNode (TreeNode n d cs) ?p = join newline (map renderRow (rows cs ?p))"
    using 2(1) by simp
  have b: "join newline (formatNode_lines rest pre) = join newline (map renderRow (rows rest pre))"
    using 2(2) by simp
  show ?case
    using b a
    by (cases "rest = []")
      (simp_all add: Let_def join_Cons join_append renderRow_pair displayName_def rows_eq_Nil
        formatNode_lines_eq_Nil del: formatNode.simps)
qed

lemma formatTree_lines_eq_Nil: "formatTree_lines cs = [] \<longleftrightarrow> cs = []"
  by (cases cs) (simp_all add: Let_def)

lemma rows_top_eq_Nil: "rows_top cs = [] \<longleftrightarrow> cs = []"
  by (cases cs) simp_all

lemma formatTree_lines_rows:
  "join newline (formatTree_lines cs) = join newline (map renderRow (rows_top cs))"
proof (induction cs)
  case Nil
  show ?case by simp
next
  case (Cons c cs)
  have a: "formatNode c [] = join newline (map renderRow (rows (children c) []))"
    by (simp add: formatNode_children formatNode_lines_rows)
  show ?case
    using Cons a
    by (simp add: Let_def join_Cons join_append renderRow_pair displayName_def rows_eq_Nil
        formatTree_lines_eq_Nil rows_top_eq_Nil)
qed


fun rowsE ::
  "EnhancedTreeNode list \<Rightarrow> string \<Rightarrow> enat \<Rightarrow> (string \<times> EnhancedTreeNode) list" where
  "rowsE [] pre maxD = []"
| "rowsE (EnhancedTreeNode n d s cs dp # rest) pre maxD =
    (if enat dp > maxD then rowsE rest pre maxD
     else (pre @ (if rest = [] then connectorE_last else connectorE_mid),
           EnhancedTreeNode n d s cs dp) #
          (if enat dp < maxD
           then rowsE cs (pre @ (if rest = [] then prefixE_last else prefixE_mid)) maxD
           else []) @
          rowsE rest pre maxD)"

fun rowsE_top ::
  "EnhancedTreeNode list \<Rightarrow> enat \<Rightarrow> (string \<times> EnhancedTreeNode) list" where
  "rowsE_top [] maxD = []"
| "rowsE_top (child # rest) maxD =
    ([], child) #
    (if enat (depthE child) < maxD then rowsE (childrenE child) [] maxD else []) @
    rowsE_top rest maxD"

definition renderRowE ::
  "SubTreeOptions \<Rightarrow> enat \<Rightarrow> string \<times> EnhancedTreeNode \<Rightarrow> string" where
  "renderRowE options maxD r = fst r @ displayNameOf (snd r) options maxD"

lemma renderRowE_pair: "renderRowE options maxD (p, c) = p @ displayNameOf c options maxD"
  by (simp add: renderRowE_def)

lemma rowsE_prefix_nonempty: "r \<in> set (rowsE cs pre maxD) \<Longrightarrow> fst r \<noteq> []"
  by (induction cs pre maxD rule: rowsE.induct)
    (auto simp: connectorE_last_def connectorE_mid_def split: if_splits)

lemma join_nonempty: "xs \<noteq> [] \<Longrightarrow> \<forall>x\<in>set xs. x \<noteq> [] \<Longrightarrow> join s xs \<noteq> []"
  by (cases xs) (auto simp: join_Cons)

lemma join_rowsE_nonempty:
  "rowsE cs pre maxD \<noteq> [] \<Longrightarrow>
    join newline (map (renderRowE options maxD) (rowsE cs pre maxD)) \<noteq> []"
  by (rule join_nonempty) (auto simp: renderRowE_def dest: rowsE_prefix_nonempty)

lemma formatEnhancedNode_lines_eq_Nil:
  "formatEnhancedNode_lines cs pre options maxD = [] \<longleftrightarrow> rowsE cs pre maxD = []"
  by (induction cs pre maxD rule: rowsE.induct) (auto simp: Let_def)

lemma formatEnhancedNode_children:
  "formatEnhancedNode c pre options maxD =
    join newline (formatEnhancedNode_lines (childrenE c) pre options maxD)"
  by (cases c) simp

lemma formatEnhancedNode_lines_rowsE:
  "join newline (formatEnhancedNode_lines cs pre options maxD) =
    join newline (map (renderRowE options maxD) (rowsE cs pre maxD))"
proof (induction cs pre maxD rule: rowsE.induct)
  case (1 pre maxD)
  show ?case by simp
next
  case (2 n d s cs dp rest pre maxD)
  let ?p = "pre @ (if rest = [] then prefixE_last else prefixE_mid)"
  let ?c = "EnhancedTreeNode n d s cs dp"
  show ?case
  proof (cases "enat dp > maxD")
    case True
    with 2(1) show ?thesis by simp
  next
    case False
    have b: "join newline (formatEnhancedNode_lines rest pre options maxD) =
             join newline (map (renderRowE options maxD) (rowsE rest pre maxD))"
      using 2(3) False by simp
    have be: "formatEnhancedNode_lines rest pre options maxD = [] \<longleftrightarrow> rowsE rest pre maxD = []"
      by (rule formatEnhancedNode_lines_eq_Nil)
    show ?thesis
    proof (cases "enat dp < maxD")
      case lt: True
      have a: "formatEnhancedNode ?c ?p options maxD =
               join newline (map (renderRowE options maxD) (rowsE cs ?p maxD))"
        using 2(2) False lt by simp
      have ne: "rowsE cs ?p maxD \<noteq> [] \<Longrightarrow> formatEnhancedNode ?c ?p options maxD \<noteq> []"
        unfolding a by (rule join_rowsE_nonempty)
      have e: "rowsE cs ?p maxD = [] \<Longrightarrow> formatEnhancedNode ?c ?p options maxD = []"
        unfolding a by simp
      have cse: "cs = [] \<Longrightarrow> rowsE cs ?p maxD = []"
        by simp
      show ?thesis
      proof (cases "rowsE cs ?p maxD = []")
        case True
        with False lt b be e show ?thesis
          by (cases "rest = []")
            (simp_all add: Let_def join_Cons join_append renderRowE_pair
              del: formatEnhancedNode.simps)
      next
        case rne: False
        with cse have "cs \<noteq> []" by blast
        with False lt b be a ne rne show ?thesis
          by (cases "rest = []")
            (simp_all add: Let_def join_Cons join_append renderRowE_pair
              del: formatEnhancedNode.simps)
      qed
    next
      case ge: False
      with False b be show ?thesis
        by (cases "rest = []")
          (simp_all add: Let_def join_Cons join_append renderRowE_pair
            del: formatEnhancedNode.simps)
    qed
  qed
qed

lemma formatSubTree_lines_eq_Nil: "formatSubTree_lines cs options maxD = [] \<longleftrightarrow> cs = []"
  by (cases cs) (simp_all add: Let_def)

lemma rowsE_top_eq_Nil: "rowsE_top cs maxD = [] \<longleftrightarrow> cs = []"
  by (cases cs) simp_all

lemma formatSubTree_lines_rowsE:
  "join newline (formatSubTree_lines cs options maxD) =
    join newline (map (renderRowE options maxD) (rowsE_top cs maxD))"
proof (induction cs)
  case Nil
  show ?case by simp
next
  case (Cons c cs)
  let ?R = "rowsE (childrenE c) [] maxD"
  have a: "formatEnhancedNode c [] options maxD = join newline (map (renderRowE options maxD) ?R)"
    by (simp add: formatEnhancedNode_children formatEnhancedNode_lines_rowsE)
  have ne: "?R \<noteq> [] \<Longrightarrow> formatEnhancedNode c [] options maxD \<noteq> []"
    unfolding a by (rule join_rowsE_nonempty)
  have e: "?R = [] \<Longrightarrow> formatEnhancedNode c [] options maxD = []"
    unfolding a by simp
  have cse: "childrenE c = [] \<Longrightarrow> ?R = []"
    by simp
  have be: "formatSubTree_lines cs options maxD = [] \<longleftrightarrow> rowsE_top cs maxD = []"
    by (simp add: formatSubTree_lines_eq_Nil rowsE_top_eq_Nil)
  show ?case
  proof (cases "?R = []")
    case True
    with Cons be e show ?thesis
      by (simp add: Let_def join_Cons join_append renderRowE_pair)
  next
    case rne: False
    with cse have "childrenE c \<noteq> []" by blast
    with Cons be a ne rne show ?thesis
      by (simp add: Let_def join_Cons join_append renderRowE_pair)
  qed
qed

section \<open>The claims of the specification\<close>

subsection \<open>The worked example\<close>

text \<open>
  The trees of the example. The two files of \<^verbatim>\<open>src\<close> are the only names that the
  builders compare; their order is the comparator's.
\<close>

lemma example_tree:
  "buildTree lc example_items [] =
    TreeNode [] True
      [TreeNode ''README.md'' False [],
       TreeNode ''src'' True
         (if lc ''index.ts'' ''utils.ts'' \<le> 0
          then [TreeNode ''index.ts'' False [], TreeNode ''utils.ts'' False []]
          else [TreeNode ''utils.ts'' False [], TreeNode ''index.ts'' False []])]"
  by (simp add: buildTree_def example_items_def normalizePath_def backslashes_to_slashes_def
      strip_leading_slashes_def strip_trailing_slashes_def selected_def buildTree_step_def
      Let_def array_sort_def compareNodes_def addNestedNode.simps)

lemma example_treeE:
  "fileExtFilter options = None \<Longrightarrow>
   buildEnhancedTree lc example_items [] options =
    EnhancedTreeNode [] True None
      [EnhancedTreeNode ''src'' True None
         (if lc ''index.ts'' ''utils.ts'' \<le> 0
          then [EnhancedTreeNode ''index.ts'' False (Some 100) [] 2,
                EnhancedTreeNode ''utils.ts'' False (Some 200) [] 2]
          else [EnhancedTreeNode ''utils.ts'' False (Some 200) [] 2,
                EnhancedTreeNode ''index.ts'' False (Some 100) [] 2]) 1,
       EnhancedTreeNode ''README.md'' False (Some 50) [] 1] 0"
  by (simp add: buildEnhancedTree_def example_items_def normalizePath_def
      backslashes_to_slashes_def strip_leading_slashes_def strip_trailing_slashes_def
      selected_def buildEnhancedTree_step_def Let_def array_sort_def compareEnhancedNodes_def
      addNestedEnhancedNode.simps matchesExtFilter_def)

lemma index_before_utils: "byteCompare ''index.ts'' ''utils.ts'' \<le> 0"
  by code_simp

lemma showSize_filter: "fileExtFilter (defaultOptions\<lparr>showSize := Some True\<rparr>) = None"
  by (simp add: defaultOptions_def)

text \<open>
  Claim C5. For the example entry list and the empty filter path, the plain formatter
  returns exactly the four lines \<^verbatim>\<open>README.md\<close>, \<^verbatim>\<open>src/\<close>, U+251C U+2500 U+2500 \<^verbatim>\<open> index.ts\<close>
  and U+2514 U+2500 U+2500 \<^verbatim>\<open> utils.ts\<close>, joined by newlines, and nothing else (the glyphs
  are written as their UTF-8 bytes E2 94 9C, E2 94 80 and E2 94 94), for every comparator
  in the place of \<^verbatim>\<open>localeCompare\<close> that does not put \<^verbatim>\<open>utils.ts\<close> before \<^verbatim>\<open>index.ts\<close>.
\<close>

theorem formatTree_example:
  assumes "lc ''index.ts'' ''utils.ts'' \<le> 0"
  shows "formatTree lc example_items [] =
    ''README.md'' @ [CHR 0x0A] @
    ''src/'' @ [CHR 0x0A] @
    [CHR 0xE2, CHR 0x94, CHR 0x9C, CHR 0xE2, CHR 0x94, CHR 0x80, CHR 0xE2, CHR 0x94, CHR 0x80] @
    '' index.ts'' @ [CHR 0x0A] @
    [CHR 0xE2, CHR 0x94, CHR 0x94, CHR 0xE2, CHR 0x94, CHR 0x80, CHR 0xE2, CHR 0x94, CHR 0x80] @
    '' utils.ts''"
proof -
  have T: "buildTree lc example_items [] =
    TreeNode [] True
      [TreeNode ''README.md'' False [],
       TreeNode ''src'' True [TreeNode ''index.ts'' False [], TreeNode ''utils.ts'' False []]]"
    using assms by (simp add: example_tree)
  show ?thesis
    unfolding formatTree_def T by code_simp
qed

theorem formatTree_example_witness:
  "formatTree byteCompare example_items [] =
    ''README.md'' @ [CHR 0x0A] @
    ''src/'' @ [CHR 0x0A] @
    [CHR 0xE2, CHR 0x94, CHR 0x9C, CHR 0xE2, CHR 0x94, CHR 0x80, CHR 0xE2, CHR 0x94, CHR 0x80] @
    '' index.ts'' @ [CHR 0x0A] @
    [CHR 0xE2, CHR 0x94, CHR 0x94, CHR 0xE2, CHR 0x94, CHR 0x80, CHR 0xE2, CHR 0x94, CHR 0x80] @
    '' utils.ts''"
  using index_before_utils by (rule formatTree_example)

text \<open>
  Claim C2, as stated, fails: the two files under \<^verbatim>\<open>src\<close> have 100 and 200 bytes, so the
  directory is annotated with their sum, 300 bytes, which \<^verbatim>\<open>formatSize\<close> prints as
  \<^verbatim>\<open>300B\<close>. The text \<^verbatim>\<open> (2 files, 3.0KB)\<close> occurs nowhere in the output, whatever the
  comparator.
\<close>

theorem formatSubTree_example_not_3KB:
  "\<forall>lc. \<not> sublist '' (2 files, 3.0KB)''
      (formatSubTree lc example_items [] (defaultOptions\<lparr>showSize := Some True\<rparr>))"
proof
  fix lc :: comparator
  note T = example_treeE [OF showSize_filter, of lc]
  show "\<not> sublist '' (2 files, 3.0KB)''
      (formatSubTree lc example_items [] (defaultOptions\<lparr>showSize := Some True\<rparr>))"
  proof (cases "lc ''index.ts'' ''utils.ts'' \<le> 0")
    case True
    show ?thesis
      unfolding formatSubTree_def T if_P [OF True] by code_simp
  next
    case False
    show ?thesis
      unfolding formatSubTree_def T if_not_P [OF False] by code_simp
  qed
qed

text \<open>
  Claim C2, amended. For the example entry list, the empty filter path and
  \<^verbatim>\<open>showSize: true\<close>, the enhanced formatter returns the line \<^verbatim>\<open>src/ (2 files, 300B)\<close>,
  the lines of \<^verbatim>\<open>index.ts (100B)\<close> and \<^verbatim>\<open>utils.ts (200B)\<close> behind their connectors,
  the line \<^verbatim>\<open>README.md (50B)\<close>, an empty line and the summary, for every comparator in
  the place of \<^verbatim>\<open>localeCompare\<close> that does not put \<^verbatim>\<open>utils.ts\<close> before \<^verbatim>\<open>index.ts\<close>.
\<close>

theorem formatSubTree_example:
  assumes "lc ''index.ts'' ''utils.ts'' \<le> 0"
  shows "formatSubTree lc example_items [] (defaultOptions\<lparr>showSize := Some True\<rparr>) =
    ''src/ (2 files, 300B)'' @ newline @
    connectorE_mid @ ''index.ts (100B)'' @ newline @
    connectorE_last @ ''utils.ts (200B)'' @ newline @
    ''README.md (50B)'' @ newline @
    newline @
    summary_head @ ''1 directory, 3 files, 350B total''"
  unfolding formatSubTree_def example_treeE [OF showSize_filter] if_P [OF assms] by code_simp

theorem formatSubTree_example_witness:
  "formatSubTree byteCompare example_items [] (defaultOptions\<lparr>showSize := Some True\<rparr>) =
    ''src/ (2 files, 300B)'' @ newline @
    connectorE_mid @ ''index.ts (100B)'' @ newline @
    connectorE_last @ ''utils.ts (200B)'' @ newline @
    ''README.md (50B)'' @ newline @
    newline @
    summary_head @ ''1 directory, 3 files, 350B total''"
  using index_before_utils by (rule formatSubTree_example)

subsection \<open>The reserved output of an empty tree\<close>

text \<open>
  Claim C8. Whenever the tree rooted at the filter path has no children, both formatters
  return exactly \<^verbatim>\<open>(empty directory)\<close>, whatever the options: in particular for the empty
  entry list and for a filter path that selects no entry. Neither formatter has a
  \<^verbatim>\<open>throw\<close> or a partial operation (\<^verbatim>\<open>parts[0]\<close> exists because \<^verbatim>\<open>split\<close> never returns
  an empty array, \<^verbatim>\<open>childrenMap.get\<close> follows a \<^verbatim>\<open>set\<close> of the same key), so the model has
  no error value and both functions are total.
\<close>

theorem empty_directory:
  "formatTree lc [] dirPath = ''(empty directory)'' \<and>
   formatSubTree lc [] dirPath options = ''(empty directory)'' \<and>
   (children (buildTree lc items dirPath) = [] \<longrightarrow>
      formatTree lc items dirPath = ''(empty directory)'') \<and>
   (childrenE (buildEnhancedTree lc items dirPath options) = [] \<longrightarrow>
      formatSubTree lc items dirPath options = ''(empty directory)'') \<and>
   ((\<forall>item\<in>set items. \<not> selected (normalizePath dirPath) item) \<longrightarrow>
      formatTree lc items dirPath = ''(empty directory)'' \<and>
      formatSubTree lc items dirPath options = ''(empty directory)'')"
proof -
  have none: "filter (selected (normalizePath dirPath)) items = []"
    if "\<forall>item\<in>set items. \<not> selected (normalizePath dirPath) item"
    using that by (simp add: filter_empty_conv)
  show ?thesis
    by (auto simp: formatTree_def formatSubTree_def Let_def buildTree_forest
        buildEnhancedTree_forest buildForest_def buildForestE_def array_sort_Nil none)
qed

theorem empty_directory_witness:
  "formatTree byteCompare example_items ''docs'' = ''(empty directory)'' \<and>
   formatSubTree byteCompare example_items ''docs'' (defaultOptions\<lparr>showSize := Some True\<rparr>) =
     ''(empty directory)'' \<and>
   children (buildTree byteCompare example_items ''docs'') = []"
proof -
  have a: "\<forall>item\<in>set example_items. \<not> selected (normalizePath ''docs'') item"
    by code_simp
  have b: "children (buildTree byteCompare example_items ''docs'') = []"
    by code_simp
  from a b
    empty_directory [of byteCompare "''docs''" "defaultOptions\<lparr>showSize := Some True\<rparr>"
      example_items]
  show ?thesis by blast
qed

subsection \<open>The summary line\<close>

definition one_file :: "GitHubTreeItem list" where
  "one_file = [\<lparr>itemPath = ''file1.ts'', itemType = blob, itemSize = Some 100\<rparr>]"

text \<open>
  Claim C7 asks for a summary line that starts with U+1F4CA (UTF-8 F0 9F 93 8A) and
  \<^verbatim>\<open> Summary: \<close>, as the unit test of the formatter expects. The literal in
  \<^verbatim>\<open>formatStats\<close> holds the four code points U+00F0 U+0178 U+201C U+0160 instead (the
  bytes of U+1F4CA read as Windows-1252), so for one file of 100 bytes and default
  options the summary starts with those, and the expected text occurs nowhere.
\<close>

theorem formatSubTree_summary_head:
  "formatSubTree lc one_file [] defaultOptions =
     ''file1.ts'' @ newline @ newline @
     [CHR 0xC3, CHR 0xB0, CHR 0xC5, CHR 0xB8, CHR 0xE2, CHR 0x80, CHR 0x9C, CHR 0xC5, CHR 0xA0] @
     '' Summary: 0 directories, 1 file, 100B total'' \<and>
   \<not> sublist ([CHR 0xF0, CHR 0x9F, CHR 0x93, CHR 0x8A] @ '' Summary'')
       (formatSubTree lc one_file [] defaultOptions)"
  by code_simp

subsection \<open>Size annotations\<close>

text \<open>
  The annotation that section 4.5 of the specification describes: a file carries its
  size, a directory the number and the total size of the files below it within the depth
  bound, unless there is none.
\<close>

definition baseName :: "EnhancedTreeNode \<Rightarrow> string" where
  "baseName c = (if isDirectoryE c then nameE c @ ''/'' else nameE c)"


text \<open>What \<^verbatim>\<open>formatSubTree\<close> appends to the tree body.\<close>

definition summaryOf ::
  "comparator \<Rightarrow> GitHubTreeItem list \<Rightarrow> string \<Rightarrow> SubTreeOptions \<Rightarrow>
    string" where
  "summaryOf lc items dirPath options =
    (if showStats options \<noteq> Some False
     then newline @ newline @
          formatStats (calculateStats (buildEnhancedTree lc items dirPath options) options emptyStats)
     else [])"

lemma formatSubTree_rows:
  assumes ne: "childrenE (buildEnhancedTree lc items dirPath options) \<noteq> []"
  shows "formatSubTree lc items dirPath options =
      join newline
        (map (renderRowE options (maxDepthOf options))
           (rowsE_top (childrenE (buildEnhancedTree lc items dirPath options))
              (maxDepthOf options))) @
      summaryOf lc items dirPath options"
proof -
  have "items \<noteq> []"
  proof
    assume "items = []"
    then have "childrenE (buildEnhancedTree lc items dirPath options) = []"
      by (simp add: buildEnhancedTree_forest buildForestE_def array_sort_Nil)
    with ne show False by contradiction
  qed
  with ne show ?thesis
    by (simp add: formatSubTree_def Let_def summaryOf_def formatSubTree_lines_rowsE)
qed






section \<open>Depth and shape of the enhanced tree\<close>

text \<open>
  Every node of the enhanced tree carries the depth of its level, and only directories
  have children.
\<close>

fun wfE :: "nat \<Rightarrow> EnhancedTreeNode \<Rightarrow> bool" where
  "wfE d (EnhancedTreeNode n isd s cs dp) =
    (dp = d \<and> (\<not> isd \<longrightarrow> cs = []) \<and> (\<forall>c\<in>set cs. wfE (Suc d) c))"

lemma wfE_sel:
  "wfE d c \<longleftrightarrow>
    depthE c = d \<and> (\<not> isDirectoryE c \<longrightarrow> childrenE c = []) \<and>
    (\<forall>x\<in>set (childrenE c). wfE (Suc d) x)"
  by (cases c) simp

lemma wfE_insert:
  "parts \<noteq> [] \<Longrightarrow> \<forall>c\<in>set cs. wfE d c \<Longrightarrow>
    (\<forall>c\<in>set (upsertE lc cs parts item d options). wfE d c) \<and>
    (\<forall>c\<in>set (insertPartsE lc cs parts item d options). wfE d c)"
proof (induction parts arbitrary: cs d)
  case Nil
  then show ?case by simp
next
  case (Cons n rest)
  have sub: "\<forall>c\<in>set (insertPartsE lc xs rest item (Suc d) options). wfE (Suc d) c"
    if "rest \<noteq> []" "\<forall>c\<in>set xs. wfE (Suc d) c" for xs
    using Cons.IH [OF that] by simp
  have U: "\<forall>c\<in>set (upsertE lc cs (n # rest) item d options). wfE d c"
  proof (cases "findIndex (\<lambda>c. nameE c = n) cs")
    case None
    show ?thesis
      using Cons.prems(2) sub [of "[]"] by (auto simp: upsertE_new [OF None])
  next
    case (Some i)
    from findIndex_Some [OF Some] have i: "i < length cs" by simp
    then have ci: "wfE d (cs ! i)"
      using Cons.prems(2) by simp
    have "wfE d (EnhancedTreeNode (nameE (cs ! i)) True (sizeE (cs ! i))
             (insertPartsE lc (childrenE (cs ! i)) rest item (Suc d) options) (depthE (cs ! i)))"
      if "rest \<noteq> []"
      using ci sub [OF that, of "childrenE (cs ! i)"] by (simp add: wfE_sel [of d "cs ! i"])
    with ci Cons.prems(2) show ?thesis
      by (auto simp: upsertE_found [OF Some] dest!: set_update_subset_insert [THEN subsetD])
  qed
  with Cons.prems(2) show ?case
    by (simp add: insertPartsE_upsertE set_array_sort)
qed

lemma foldl_snoc: "foldl f a (xs @ [x]) = f (foldl f a xs) x"
  by simp

lemma wfE_buildForestE: "\<forall>c\<in>set (buildForestE lc ndp options items). wfE (Suc 0) c"
proof (induction items rule: rev_induct)
  case Nil
  show ?case by (simp add: buildForestE_def)
next
  case (snoc item items)
  let ?cs = "buildForestE lc ndp options items"
  have cs: "\<forall>c\<in>set ?cs. wfE (Suc 0) c"
    using snoc by simp
  have step: "buildForestE lc ndp options (items @ [item]) = forest_stepE lc ndp options ?cs item"
    by (simp add: buildForestE_def)
  show ?case
  proof (cases "isMarker ndp item \<or> filteredOut options (relativeParts ndp item) item")
    case True
    then have "forest_stepE lc ndp options ?cs item = ?cs"
      by (auto simp: forest_stepE_def)
    with cs step show ?thesis by simp
  next
    case False
    then have "forest_stepE lc ndp options ?cs item =
               upsertE lc ?cs (relativeParts ndp item) item 1 options"
      by (simp add: forest_stepE_def)
    with wfE_insert [OF relativeParts_nonempty cs, of lc ndp item item options] step
    show ?thesis by simp
  qed
qed

lemma wfE_buildEnhancedTree:
  "\<forall>c\<in>set (childrenE (buildEnhancedTree lc items dirPath options)). wfE (Suc 0) c"
  using wfE_buildForestE by (simp add: buildEnhancedTree_forest set_array_sort)

text \<open>All nodes of a forest, each before its descendants and its later siblings.\<close>

fun allnodesE :: "EnhancedTreeNode list \<Rightarrow> EnhancedTreeNode list" where
  "allnodesE [] = []"
| "allnodesE (EnhancedTreeNode n d s cs dp # rest) =
    EnhancedTreeNode n d s cs dp # allnodesE cs @ allnodesE rest"

lemma allnodesE_Cons: "allnodesE (c # rest) = c # allnodesE (childrenE c) @ allnodesE rest"
  by (cases c) simp

lemma allnodesE_depth:
  "\<forall>c\<in>set cs. wfE d c \<Longrightarrow> x \<in> set (allnodesE cs) \<Longrightarrow> d \<le> depthE x"
proof (induction cs arbitrary: d rule: allnodesE.induct)
  case 1
  then show ?case by simp
next
  case (2 n isd s cs dp rest)
  from 2(1) [of "Suc d"] 2(2) [of d] 2(3,4) show ?case
    by (auto simp: Suc_leD)
qed

lemma allnodesE_beyond:
  assumes "\<forall>c\<in>set cs. wfE d c" and "N < d"
  shows "filter (\<lambda>c. P c \<and> depthE c \<le> N) (allnodesE cs) = []"
  using assms(2) by (auto simp: filter_empty_conv dest!: allnodesE_depth [OF assms(1)])

lemma allnodesE_beyond':
  assumes "\<forall>c\<in>set cs. wfE d c" and "N < d"
  shows "filter (\<lambda>c. depthE c \<le> N) (allnodesE cs) = []"
  using allnodesE_beyond [OF assms, of "\<lambda>c. True"] by simp

lemma rowsE_nodes:
  "\<forall>c\<in>set cs. wfE d c \<Longrightarrow>
    map snd (rowsE cs pre (enat N)) = filter (\<lambda>c. depthE c \<le> N) (allnodesE cs)"
proof (induction cs pre "enat N" arbitrary: d rule: rowsE.induct)
  case (1 pre)
  show ?case by simp
next
  case (2 n isd s cs dp rest pre)
  from 2(4) have dp: "dp = d" and ch: "\<forall>c\<in>set cs. wfE (Suc d) c"
    and rest: "\<forall>c\<in>set rest. wfE d c" by auto
  show ?case
  proof (cases "N < d")
    case True
    with 2(1) [of d] rest dp allnodesE_beyond' [OF ch, of N] show ?thesis
      by simp
  next
    case False
    show ?thesis
    proof (cases "d < N")
      case True
      with False 2(2) [of "Suc d"] 2(3) [of d] rest ch dp show ?thesis
        by simp
    next
      case nlt: False
      with False 2(3) [of d] rest dp allnodesE_beyond' [OF ch, of N] show ?thesis
        by simp
    qed
  qed
qed

lemma rowsE_top_nodes:
  "\<forall>c\<in>set cs. wfE (Suc 0) c \<Longrightarrow> Suc 0 \<le> N \<Longrightarrow>
    map snd (rowsE_top cs (enat N)) = filter (\<lambda>c. depthE c \<le> N) (allnodesE cs)"
proof (induction cs)
  case Nil
  show ?case by simp
next
  case (Cons c cs)
  from Cons.prems have c: "depthE c = Suc 0"
    and ch: "\<forall>x\<in>set (childrenE c). wfE (Suc (Suc 0)) x"
    by (simp_all add: wfE_sel [of "Suc 0" c])
  show ?case
  proof (cases "Suc 0 < N")
    case True
    with Cons c rowsE_nodes [OF ch, of "[]" N] show ?thesis
      by (simp add: allnodesE_Cons)
  next
    case False
    with Cons c allnodesE_beyond' [OF ch, of N] show ?thesis
      by (simp add: allnodesE_Cons)
  qed
qed


subsection \<open>Statistics\<close>

definition fileSize :: "EnhancedTreeNode \<Rightarrow> nat" where
  "fileSize c = (case sizeE c of None \<Rightarrow> 0 | Some sz \<Rightarrow> sz)"

text \<open>The files and the directories of a forest that lie within depth \<open>N\<close>.\<close>

definition filesWithin ::
  "nat \<Rightarrow> EnhancedTreeNode list \<Rightarrow> EnhancedTreeNode list" where
  "filesWithin N cs = filter (\<lambda>c. \<not> isDirectoryE c \<and> depthE c \<le> N) (allnodesE cs)"

definition dirsWithin ::
  "nat \<Rightarrow> EnhancedTreeNode list \<Rightarrow> EnhancedTreeNode list" where
  "dirsWithin N cs = filter (\<lambda>c. isDirectoryE c \<and> depthE c \<le> N) (allnodesE cs)"

lemma within_Nil: "filesWithin N [] = []" "dirsWithin N [] = []"
  by (simp_all add: filesWithin_def dirsWithin_def)

lemma within_beyond:
  assumes "\<forall>c\<in>set cs. wfE d c" and "N < d"
  shows "filesWithin N cs = []" and "dirsWithin N cs = []"
  using allnodesE_beyond [OF assms] by (simp_all add: filesWithin_def dirsWithin_def)

lemma within_Cons:
  "filesWithin N (c # rest) =
    (if \<not> isDirectoryE c \<and> depthE c \<le> N then [c] else []) @
    filesWithin N (childrenE c) @ filesWithin N rest"
  "dirsWithin N (c # rest) =
    (if isDirectoryE c \<and> depthE c \<le> N then [c] else []) @
    dirsWithin N (childrenE c) @ dirsWithin N rest"
  by (simp_all add: filesWithin_def dirsWithin_def allnodesE_Cons)

lemma calculateStats_counts:
  "totalFiles (calculateStats c options st) =
     totalFiles (calculateStats_loop (childrenE c) options st) \<and>
   totalDirs (calculateStats c options st) =
     totalDirs (calculateStats_loop (childrenE c) options st) \<and>
   totalSize (calculateStats c options st) =
     totalSize (calculateStats_loop (childrenE c) options st)"
  by (cases c) (simp add: Let_def)

lemma calculateStats_loop_counts:
  "\<forall>c\<in>set cs. wfE d c \<Longrightarrow> maxDepthOf options = enat N \<Longrightarrow>
    totalFiles (calculateStats_loop cs options st) =
      totalFiles st + length (filesWithin N cs) \<and>
    totalDirs (calculateStats_loop cs options st) =
      totalDirs st + length (dirsWithin N cs) \<and>
    totalSize (calculateStats_loop cs options st) =
      totalSize st + sum_list (map fileSize (filesWithin N cs))"
proof (induction cs arbitrary: d st rule: allnodesE.induct)
  case 1
  show ?case by (simp add: within_Nil)
next
  case (2 n isd s cs dp rest)
  let ?c = "EnhancedTreeNode n isd s cs dp"
  from 2(3) have dp: "dp = d" and ch: "\<forall>c\<in>set cs. wfE (Suc d) c"
    and rest: "\<forall>c\<in>set rest. wfE d c" and leaf: "\<not> isd \<Longrightarrow> cs = []" by auto
  note r = 2(2) [OF rest 2(4)]
  show ?case
  proof (cases "N < d")
    case True
    with r [of st] dp 2(4) within_beyond [OF ch, of N] show ?thesis
      by (simp add: within_Cons del: calculateStats.simps)
  next
    case False
    show ?thesis
    proof (cases isd)
      case True
      let ?st = "st\<lparr>totalDirs := totalDirs st + 1\<rparr>"
      from 2(1) [OF ch 2(4), of ?st] calculateStats_counts [of ?c options ?st]
        r [of "calculateStats ?c options ?st"] True False dp 2(4)
      show ?thesis
        by (simp add: within_Cons del: calculateStats.simps)
    next
      case nd: False
      with r [of "st\<lparr>totalFiles := totalFiles st + 1,
                     totalSize := totalSize st + (case s of None \<Rightarrow> 0 | Some sz \<Rightarrow> sz)\<rparr>"]
        False dp 2(4) leaf
      show ?thesis
        by (simp add: within_Cons within_Nil fileSize_def del: calculateStats.simps)
    qed
  qed
qed

lemma countDirFiles_loop_within:
  "\<forall>c\<in>set cs. wfE d c \<Longrightarrow> countDirFiles_loop cs (enat N) = length (filesWithin N cs)"
proof (induction cs arbitrary: d rule: allnodesE.induct)
  case 1
  show ?case by (simp add: within_Nil)
next
  case (2 n isd s cs dp rest)
  from 2(3) have dp: "dp = d" and ch: "\<forall>c\<in>set cs. wfE (Suc d) c"
    and rest: "\<forall>c\<in>set rest. wfE d c" and leaf: "\<not> isd \<Longrightarrow> cs = []" by auto
  show ?case
  proof (cases "N < d")
    case True
    with 2(2) [OF rest] dp within_beyond [OF ch, of N] show ?thesis
      by (simp add: within_Cons)
  next
    case False
    with 2(1) [OF ch] 2(2) [OF rest] dp leaf show ?thesis
      by (cases isd) (simp_all add: within_Cons within_Nil)
  qed
qed

lemma calculateDirSize_loop_within:
  "\<forall>c\<in>set cs. wfE d c \<Longrightarrow>
    calculateDirSize_loop cs (enat N) = sum_list (map fileSize (filesWithin N cs))"
proof (induction cs arbitrary: d rule: allnodesE.induct)
  case 1
  show ?case by (simp add: within_Nil)
next
  case (2 n isd s cs dp rest)
  from 2(3) have dp: "dp = d" and ch: "\<forall>c\<in>set cs. wfE (Suc d) c"
    and rest: "\<forall>c\<in>set rest. wfE d c" and leaf: "\<not> isd \<Longrightarrow> cs = []" by auto
  show ?case
  proof (cases "N < d")
    case True
    with 2(2) [OF rest] dp within_beyond [OF ch, of N] show ?thesis
      by (simp add: within_Cons)
  next
    case False
    with 2(1) [OF ch] 2(2) [OF rest] dp leaf show ?thesis
      by (cases isd) (simp_all add: within_Cons within_Nil fileSize_def)
  qed
qed

lemma countDirFiles_within:
  "wfE d c \<Longrightarrow> countDirFiles c (enat N) = length (filesWithin N (childrenE c))"
  using countDirFiles_loop_within [of "childrenE c" "Suc d" N]
  by (cases c) simp

lemma calculateDirSize_within:
  "wfE d c \<Longrightarrow>
    calculateDirSize c (enat N) = sum_list (map fileSize (filesWithin N (childrenE c)))"
  using calculateDirSize_loop_within [of "childrenE c" "Suc d" N]
  by (cases c) simp

lemma allnodesE_wf:
  "\<forall>c\<in>set cs. wfE d c \<Longrightarrow> x \<in> set (allnodesE cs) \<Longrightarrow> wfE (depthE x) x"
proof (induction cs arbitrary: d rule: allnodesE.induct)
  case 1
  then show ?case by simp
next
  case (2 n isd s cs dp rest)
  from 2(1) [of "Suc d"] 2(2) [of d] 2(3,4) show ?case
    by auto
qed

text \<open>The echo of the options in the statistics.\<close>

definition has_filter :: "SubTreeOptions \<Rightarrow> bool" where
  "has_filter options =
    (case fileExtFilter options of None \<Rightarrow> False | Some exts \<Rightarrow> length exts > 0)"

lemma calculateStats_echo_node:
  "(has_filter options \<or>
      filteredExtensions (calculateStats c options st) = filteredExtensions st) \<and>
   (maxDepth options \<noteq> None \<or>
      depthLimited (calculateStats c options st) = depthLimited st)"
  and calculateStats_echo_loop:
  "(has_filter options \<or>
      filteredExtensions (calculateStats_loop cs options st) = filteredExtensions st) \<and>
   (maxDepth options \<noteq> None \<or>
      depthLimited (calculateStats_loop cs options st) = depthLimited st)"
proof (induction c options st and cs options st rule: calculateStats_calculateStats_loop.induct)
  case (1 n d s cs dp options stats)
  then show ?case by (auto simp: Let_def has_filter_def)
next
  case (2 options stats)
  show ?case by simp
next
  case (3 child rest options stats)
  then show ?case by (auto simp del: calculateStats.simps)
qed

lemma calculateStats_echo:
  "filteredExtensions (calculateStats c options emptyStats) =
     (if has_filter options then fileExtFilter options else None) \<and>
   depthLimited (calculateStats c options emptyStats) = maxDepth options"
proof (cases c)
  case (EnhancedTreeNode n d s cs dp)
  with calculateStats_echo_loop [of options cs emptyStats] show ?thesis
    by (auto simp: Let_def has_filter_def emptyStats_def split: option.splits)
qed


subsection \<open>The shape of the summary line\<close>

lemma join_snoc: "xs \<noteq> [] \<Longrightarrow> join s (xs @ [x]) = join s xs @ s @ x"
  by (induction xs rule: induct_list012) simp_all

lemma formatStats_shape:
  "formatStats stats =
    summary_head @ string_of_nat (totalDirs stats) @ '' '' @
    (if totalDirs stats = 1 then ''directory'' else ''directories'') @ '', '' @
    string_of_nat (totalFiles stats) @ '' '' @
    (if totalFiles stats = 1 then ''file'' else ''files'') @
    (if totalSize stats > 0 then '', '' @ formatSize (totalSize stats) @ '' total'' else []) @
    (case filteredExtensions stats of
       None \<Rightarrow> []
     | Some exts \<Rightarrow>
         if exts \<noteq> [] then '', (filtered: '' @ join '', '' exts @ '')'' else []) @
    (case depthLimited stats of
       None \<Rightarrow> []
     | Some n \<Rightarrow> '', (depth limited to '' @ string_of_nat n @ '')'')"
proof -
  define sep :: string where "sep = '', ''"
  define p1 where "p1 = summary_head @ string_of_nat (totalDirs stats) @ '' '' @
    (if totalDirs stats = 1 then ''directory'' else ''directories'')"
  define p2 where "p2 = string_of_nat (totalFiles stats) @ '' '' @
    (if totalFiles stats = 1 then ''file'' else ''files'')"
  define p3 where "p3 = formatSize (totalSize stats) @ '' total''"
  define parts3 where
    "parts3 = (if totalSize stats > 0 then ([p1] @ [p2]) @ [p3] else [p1] @ [p2])"
  define parts4 where "parts4 =
    (case filteredExtensions stats of
       None \<Rightarrow> parts3
     | Some exts \<Rightarrow>
         if length exts > 0 then parts3 @ [''(filtered: '' @ join '', '' exts @ '')'']
         else parts3)"
  define parts5 where "parts5 =
    (case depthLimited stats of
       None \<Rightarrow> parts4
     | Some n \<Rightarrow> parts4 @ [''(depth limited to '' @ string_of_nat n @ '')''])"
  have f: "formatStats stats = join sep parts5"
    unfolding formatStats_def Let_def parts5_def parts4_def parts3_def p3_def p2_def p1_def sep_def
    by (rule refl)
  have n3: "parts3 \<noteq> []" by (simp add: parts3_def)
  have n4: "parts4 \<noteq> []" using n3 by (simp add: parts4_def split: option.splits)
  have j3: "join sep parts3 = p1 @ sep @ p2 @ (if totalSize stats > 0 then sep @ p3 else [])"
    by (simp add: parts3_def)
  have j4: "join sep parts4 = join sep parts3 @
    (case filteredExtensions stats of
       None \<Rightarrow> []
     | Some exts \<Rightarrow>
         if exts \<noteq> [] then sep @ ''(filtered: '' @ join '', '' exts @ '')'' else [])"
    using n3 by (simp add: parts4_def join_snoc split: option.splits)
  have j5: "join sep parts5 = join sep parts4 @
    (case depthLimited stats of
       None \<Rightarrow> []
     | Some n \<Rightarrow> sep @ ''(depth limited to '' @ string_of_nat n @ '')'')"
    using n4 by (simp add: parts5_def join_snoc split: option.splits)
  show ?thesis
    unfolding f j5 j4 j3 unfolding p1_def p2_def p3_def sep_def
    by (simp split: option.splits)
qed
lemma formatStats_depth_suffix:
  assumes "depthLimited stats = Some n"
  shows "suffix (''(depth limited to '' @ string_of_nat n @ '')'') (formatStats stats)"
proof -
  define pre where "pre =
    summary_head @ string_of_nat (totalDirs stats) @ '' '' @
    (if totalDirs stats = 1 then ''directory'' else ''directories'') @ '', '' @
    string_of_nat (totalFiles stats) @ '' '' @
    (if totalFiles stats = 1 then ''file'' else ''files'') @
    (if totalSize stats > 0 then '', '' @ formatSize (totalSize stats) @ '' total'' else []) @
    (case filteredExtensions stats of
       None \<Rightarrow> []
     | Some exts \<Rightarrow>
         if exts \<noteq> [] then '', (filtered: '' @ join '', '' exts @ '')'' else []) @ '', ''"
  have "formatStats stats = pre @ ''(depth limited to '' @ string_of_nat n @ '')''"
    unfolding pre_def formatStats_shape [of stats] assms by simp
  then show ?thesis
    by (rule suffixI)
qed

definition nested_file :: "GitHubTreeItem list" where
  "nested_file = [\<lparr>itemPath = ''a/b/c.ts'', itemType = blob, itemSize = Some 10\<rparr>]"

lemma maxDepthOf_Some: "maxDepth options = Some N \<Longrightarrow> maxDepthOf options = enat N"
  by (simp add: maxDepthOf_def)

lemma buildEnhancedTree_rows:
  "1 \<le> N \<Longrightarrow>
    map snd (rowsE_top (childrenE (buildEnhancedTree lc items dirPath options)) (enat N)) =
      filter (\<lambda>c. depthE c \<le> N)
        (allnodesE (childrenE (buildEnhancedTree lc items dirPath options)))"
  using wfE_buildEnhancedTree [of lc items dirPath options] by (simp add: rowsE_top_nodes)

lemma buildEnhancedTree_counts:
  assumes "maxDepth options = Some N"
  shows "totalFiles (calculateStats (buildEnhancedTree lc items dirPath options) options emptyStats) =
      length (filesWithin N (childrenE (buildEnhancedTree lc items dirPath options)))"
    and "totalDirs (calculateStats (buildEnhancedTree lc items dirPath options) options emptyStats) =
      length (dirsWithin N (childrenE (buildEnhancedTree lc items dirPath options)))"
    and "totalSize (calculateStats (buildEnhancedTree lc items dirPath options) options emptyStats) =
      sum_list (map fileSize
        (filesWithin N (childrenE (buildEnhancedTree lc items dirPath options))))"
proof -
  let ?T = "buildEnhancedTree lc items dirPath options"
  have e: "totalFiles emptyStats = 0" "totalDirs emptyStats = 0" "totalSize emptyStats = 0"
    by (simp_all add: emptyStats_def)
  note l = calculateStats_loop_counts [OF wfE_buildEnhancedTree maxDepthOf_Some [OF assms],
      of lc items dirPath options emptyStats]
  note c = calculateStats_counts [of ?T options emptyStats]
  show "totalFiles (calculateStats ?T options emptyStats) = length (filesWithin N (childrenE ?T))"
    using l c e by simp
  show "totalDirs (calculateStats ?T options emptyStats) = length (dirsWithin N (childrenE ?T))"
    using l c e by simp
  show "totalSize (calculateStats ?T options emptyStats) =
      sum_list (map fileSize (filesWithin N (childrenE ?T)))"
    using l c e by simp
qed

lemma buildEnhancedTree_annotations:
  assumes "c \<in> set (allnodesE (childrenE (buildEnhancedTree lc items dirPath options)))"
  shows "countDirFiles c (enat N) = length (filesWithin N (childrenE c))"
    and "calculateDirSize c (enat N) = sum_list (map fileSize (filesWithin N (childrenE c)))"
proof -
  have wf: "wfE (depthE c) c"
    using allnodesE_wf [OF wfE_buildEnhancedTree assms] .
  show "countDirFiles c (enat N) = length (filesWithin N (childrenE c))"
    using wf by (rule countDirFiles_within)
  show "calculateDirSize c (enat N) = sum_list (map fileSize (filesWithin N (childrenE c)))"
    using wf by (rule calculateDirSize_within)
qed

lemma formatSubTree_depth_suffix:
  assumes md: "maxDepth options = Some N"
    and ne: "childrenE (buildEnhancedTree lc items dirPath options) \<noteq> []"
    and st: "showStats options \<noteq> Some False"
  shows "suffix (''(depth limited to '' @ string_of_nat N @ '')'')
      (formatSubTree lc items dirPath options)"
proof -
  let ?stats = "calculateStats (buildEnhancedTree lc items dirPath options) options emptyStats"
  have "depthLimited ?stats = Some N"
    using calculateStats_echo [of "buildEnhancedTree lc items dirPath options" options] md by simp
  then have s: "suffix (''(depth limited to '' @ string_of_nat N @ '')'') (formatStats ?stats)"
    by (rule formatStats_depth_suffix)
  have "summaryOf lc items dirPath options = (newline @ newline) @ formatStats ?stats"
    using st by (simp add: summaryOf_def)
  then have "formatSubTree lc items dirPath options =
      (join newline
        (map (renderRowE options (maxDepthOf options))
           (rowsE_top (childrenE (buildEnhancedTree lc items dirPath options))
              (maxDepthOf options))) @ newline @ newline) @ formatStats ?stats"
    using formatSubTree_rows [OF ne] by simp
  then show ?thesis
    using s by (simp only: suffix_appendI)
qed

lemma formatSubTree_nested_file:
  "formatSubTree lc nested_file [] (defaultOptions\<lparr>maxDepth := Some 1\<rparr>) =
     ''a/'' @ newline @ newline @ summary_head @
     ''1 directory, 0 files, (depth limited to 1)''"
  by code_simp


text \<open>
  Claim C4. With a depth bound \<open>N \<ge> 1\<close>, the rows of the output are exactly the nodes of
  depth at most \<open>N\<close>, each before its descendants and its later siblings: a node beyond
  the bound is never rendered, nor anything below it, and a directory at depth \<open>N\<close> is
  rendered without its children. The statistics count exactly the files and directories
  of depth at most \<open>N\<close>, and so do the file count and the size in the annotation of every
  directory. When the summary is present it ends with \<^verbatim>\<open>(depth limited to N)\<close>. For the
  single entry \<^verbatim>\<open>a/b/c.ts\<close> and the bound 1 the output is the line \<^verbatim>\<open>a/\<close> and the summary.
\<close>

theorem depth_limit:
  assumes md: "maxDepth options = Some N" and pos: "1 \<le> N"
  shows
    "(let cs = childrenE (buildEnhancedTree lc items dirPath options);
          stats = calculateStats (buildEnhancedTree lc items dirPath options) options emptyStats
      in map snd (rowsE_top cs (enat N)) = filter (\<lambda>c. depthE c \<le> N) (allnodesE cs) \<and>
         (cs \<noteq> [] \<longrightarrow>
            formatSubTree lc items dirPath options =
              join newline (map (renderRowE options (enat N)) (rowsE_top cs (enat N))) @
              summaryOf lc items dirPath options) \<and>
         totalFiles stats = length (filesWithin N cs) \<and>
         totalDirs stats = length (dirsWithin N cs) \<and>
         totalSize stats = sum_list (map fileSize (filesWithin N cs)) \<and>
         (\<forall>c\<in>set (allnodesE cs).
            countDirFiles c (enat N) = length (filesWithin N (childrenE c)) \<and>
            calculateDirSize c (enat N) =
              sum_list (map fileSize (filesWithin N (childrenE c)))) \<and>
         (cs \<noteq> [] \<and> showStats options \<noteq> Some False \<longrightarrow>
            suffix (''(depth limited to '' @ string_of_nat N @ '')'')
              (formatSubTree lc items dirPath options))) \<and>
     formatSubTree lc nested_file [] (defaultOptions\<lparr>maxDepth := Some 1\<rparr>) =
       ''a/'' @ newline @ newline @ summary_head @
       ''1 directory, 0 files, (depth limited to 1)''"
proof -
  have out: "formatSubTree lc items dirPath options =
      join newline (map (renderRowE options (enat N))
        (rowsE_top (childrenE (buildEnhancedTree lc items dirPath options)) (enat N))) @
      summaryOf lc items dirPath options"
    if "childrenE (buildEnhancedTree lc items dirPath options) \<noteq> []"
    using formatSubTree_rows [OF that] maxDepthOf_Some [OF md] by simp
  show ?thesis
    unfolding Let_def
    apply (intro conjI impI ballI)
    subgoal by (rule buildEnhancedTree_rows [OF pos])
    subgoal by (rule out)
    subgoal by (rule buildEnhancedTree_counts(1) [OF md])
    subgoal by (rule buildEnhancedTree_counts(2) [OF md])
    subgoal by (rule buildEnhancedTree_counts(3) [OF md])
    subgoal for c by (rule buildEnhancedTree_annotations(1))
    subgoal for c by (rule buildEnhancedTree_annotations(2))
    subgoal by (erule conjE) (rule formatSubTree_depth_suffix [OF md])
    subgoal by (rule formatSubTree_nested_file)
    done
qed

theorem depth_limit_witness:
  "map snd
     (rowsE_top (childrenE (buildEnhancedTree byteCompare nested_file [] (defaultOptions\<lparr>maxDepth := Some 1\<rparr>)))
        (enat 1)) =
   filter (\<lambda>c. depthE c \<le> 1)
     (allnodesE (childrenE (buildEnhancedTree byteCompare nested_file [] (defaultOptions\<lparr>maxDepth := Some 1\<rparr>)))) \<and>
   totalDirs
     (calculateStats (buildEnhancedTree byteCompare nested_file [] (defaultOptions\<lparr>maxDepth := Some 1\<rparr>))
        (defaultOptions\<lparr>maxDepth := Some 1\<rparr>) emptyStats) =
   length (dirsWithin 1
     (childrenE (buildEnhancedTree byteCompare nested_file [] (defaultOptions\<lparr>maxDepth := Some 1\<rparr>))))"
proof -
  have a: "maxDepth (defaultOptions\<lparr>maxDepth := Some 1\<rparr>) = Some 1"
    by simp
  have b: "(1::nat) \<le> 1"
    by simp
  note d = depth_limit [OF a b, of byteCompare nested_file "[]", unfolded Let_def]
  show ?thesis
    apply (rule conjI)
    subgoal by (rule d [THEN conjunct1, THEN conjunct1])
    subgoal by (rule d [THEN conjunct1, THEN conjunct2, THEN conjunct2, THEN conjunct2,
          THEN conjunct1])
    done
qed

section \<open>The order of the children\<close>

lemma sorted_wrt_insert_sorted:
  assumes total: "\<And>a b. cmp a b \<le> 0 \<or> cmp b a \<le> 0"
    and trans: "\<And>a b c. cmp a b \<le> 0 \<Longrightarrow> cmp b c \<le> 0 \<Longrightarrow> cmp a c \<le> 0"
  shows "sorted_wrt (\<lambda>a b. cmp a b \<le> 0) xs \<Longrightarrow>
    sorted_wrt (\<lambda>a b. cmp a b \<le> 0) (insert_sorted cmp x xs)"
proof (induction xs)
  case Nil
  show ?case by simp
next
  case (Cons y ys)
  show ?case
  proof (cases "cmp x y \<le> 0")
    case True
    with Cons.prems trans show ?thesis by auto
  next
    case False
    with total [of x y] have "cmp y x \<le> 0" by simp
    with False Cons show ?thesis by (auto simp: set_insert_sorted)
  qed
qed

lemma sorted_wrt_array_sort:
  assumes "\<And>a b. cmp a b \<le> 0 \<or> cmp b a \<le> 0"
    and "\<And>a b c. cmp a b \<le> 0 \<Longrightarrow> cmp b c \<le> 0 \<Longrightarrow> cmp a c \<le> 0"
  shows "sorted_wrt (\<lambda>a b. cmp a b \<le> 0) (array_sort cmp xs)"
proof (induction xs)
  case Nil
  show ?case by (simp add: array_sort_def)
next
  case (Cons x xs)
  from sorted_wrt_insert_sorted [of cmp, OF assms Cons] show ?case
    by (simp add: array_sort_def)
qed

lemma byteCompare_le: "byteCompare a b \<le> 0 \<longleftrightarrow> a \<le> b"
  by (auto simp: byteCompare_def)

lemma consistent_byteCompare: "consistent byteCompare"
  unfolding consistent_def byteCompare_le by auto

lemma consistent_total: "consistent lc \<Longrightarrow> lc a b \<le> 0 \<or> lc b a \<le> 0"
  unfolding consistent_def by blast

lemma consistent_trans: "consistent lc \<Longrightarrow> lc a b \<le> 0 \<Longrightarrow> lc b c \<le> 0 \<Longrightarrow> lc a c \<le> 0"
  unfolding consistent_def by blast

lemma compareNodes_le:
  "compareNodes lc a b \<le> 0 \<longleftrightarrow>
    (\<not> isDirectory a \<and> isDirectory b) \<or>
    (isDirectory a = isDirectory b \<and> lc (name a) (name b) \<le> 0)"
  by (auto simp: compareNodes_def)

lemma compareEnhancedNodes_le:
  "compareEnhancedNodes lc a b \<le> 0 \<longleftrightarrow>
    (isDirectoryE a \<and> \<not> isDirectoryE b) \<or>
    (isDirectoryE a = isDirectoryE b \<and> lc (nameE a) (nameE b) \<le> 0)"
  by (auto simp: compareEnhancedNodes_def)

definition ordered :: "comparator \<Rightarrow> TreeNode list \<Rightarrow> bool" where
  "ordered lc cs = sorted_wrt (\<lambda>a b. compareNodes lc a b \<le> 0) cs"

definition orderedE :: "comparator \<Rightarrow> EnhancedTreeNode list \<Rightarrow> bool" where
  "orderedE lc cs = sorted_wrt (\<lambda>a b. compareEnhancedNodes lc a b \<le> 0) cs"

lemma ordered_Nil: "ordered lc []" "orderedE lc []"
  by (simp_all add: ordered_def orderedE_def)

lemma ordered_array_sort:
  assumes "consistent lc"
  shows "ordered lc (array_sort (compareNodes lc) xs)"
  unfolding ordered_def
proof (rule sorted_wrt_array_sort)
  show "compareNodes lc a b \<le> 0 \<or> compareNodes lc b a \<le> 0" for a b
    using consistent_total [OF assms, of "name a" "name b"] by (auto simp: compareNodes_le)
  show "compareNodes lc a c \<le> 0"
    if "compareNodes lc a b \<le> 0" "compareNodes lc b c \<le> 0" for a b c
    using that consistent_trans [OF assms, of "name a" "name b" "name c"]
    by (auto simp: compareNodes_le)
qed

lemma orderedE_array_sort:
  assumes "consistent lc"
  shows "orderedE lc (array_sort (compareEnhancedNodes lc) xs)"
  unfolding orderedE_def
proof (rule sorted_wrt_array_sort)
  show "compareEnhancedNodes lc a b \<le> 0 \<or> compareEnhancedNodes lc b a \<le> 0" for a b
    using consistent_total [OF assms, of "nameE a" "nameE b"]
    by (auto simp: compareEnhancedNodes_le)
  show "compareEnhancedNodes lc a c \<le> 0"
    if "compareEnhancedNodes lc a b \<le> 0" "compareEnhancedNodes lc b c \<le> 0" for a b c
    using that consistent_trans [OF assms, of "nameE a" "nameE b" "nameE c"]
    by (auto simp: compareEnhancedNodes_le)
qed

text \<open>
  The ordering as the specification words it: the files, then the directories (or the
  directories, then the files), each group in the order of the names that the
  comparator gives.
\<close>

definition name_order :: "comparator \<Rightarrow> string list \<Rightarrow> bool" where
  "name_order lc ns = sorted_wrt (\<lambda>a b. lc a b \<le> 0) ns"

definition files_then_directories ::
  "comparator \<Rightarrow> TreeNode list \<Rightarrow> bool" where
  "files_then_directories lc cs \<longleftrightarrow>
    cs = filter (\<lambda>c. \<not> isDirectory c) cs @ filter isDirectory cs \<and>
    name_order lc (map name (filter (\<lambda>c. \<not> isDirectory c) cs)) \<and>
    name_order lc (map name (filter isDirectory cs))"

definition directories_then_files ::
  "comparator \<Rightarrow> EnhancedTreeNode list \<Rightarrow> bool" where
  "directories_then_files lc cs \<longleftrightarrow>
    cs = filter isDirectoryE cs @ filter (\<lambda>c. \<not> isDirectoryE c) cs \<and>
    name_order lc (map nameE (filter isDirectoryE cs)) \<and>
    name_order lc (map nameE (filter (\<lambda>c. \<not> isDirectoryE c) cs))"

lemma name_order_Cons:
  "name_order lc (n # ns) \<longleftrightarrow> (\<forall>m\<in>set ns. lc n m \<le> 0) \<and> name_order lc ns"
  by (simp add: name_order_def)

lemma name_order_Nil: "name_order lc []"
  by (simp add: name_order_def)

lemma ordered_files_then_directories: "ordered lc cs \<Longrightarrow> files_then_directories lc cs"
proof (induction cs)
  case Nil
  show ?case by (simp add: files_then_directories_def name_order_Nil)
next
  case (Cons a cs)
  from Cons.prems have le: "\<forall>c\<in>set cs. compareNodes lc a c \<le> 0" and "ordered lc cs"
    by (simp_all add: ordered_def)
  with Cons.IH have ih: "files_then_directories lc cs" by simp
  show ?case
  proof (cases "isDirectory a")
    case True
    with le have "\<forall>c\<in>set cs. isDirectory c \<and> lc (name a) (name c) \<le> 0"
      by (auto simp: compareNodes_le)
    moreover from this have "filter (\<lambda>c. \<not> isDirectory c) cs = []" "filter isDirectory cs = cs"
      by (simp_all add: filter_empty_conv filter_id_conv)
    ultimately show ?thesis
      using ih True by (auto simp: files_then_directories_def name_order_Cons)
  next
    case False
    with le have "\<forall>c\<in>set cs. \<not> isDirectory c \<longrightarrow> lc (name a) (name c) \<le> 0"
      by (auto simp: compareNodes_le)
    with ih False show ?thesis
      by (auto simp: files_then_directories_def name_order_Cons)
  qed
qed

lemma orderedE_directories_then_files: "orderedE lc cs \<Longrightarrow> directories_then_files lc cs"
proof (induction cs)
  case Nil
  show ?case by (simp add: directories_then_files_def name_order_Nil)
next
  case (Cons a cs)
  from Cons.prems have le: "\<forall>c\<in>set cs. compareEnhancedNodes lc a c \<le> 0" and "orderedE lc cs"
    by (simp_all add: orderedE_def)
  with Cons.IH have ih: "directories_then_files lc cs" by simp
  show ?case
  proof (cases "isDirectoryE a")
    case False
    with le have "\<forall>c\<in>set cs. \<not> isDirectoryE c \<and> lc (nameE a) (nameE c) \<le> 0"
      by (auto simp: compareEnhancedNodes_le)
    moreover from this have "filter isDirectoryE cs = []"
      "filter (\<lambda>c. \<not> isDirectoryE c) cs = cs"
      by (simp_all add: filter_empty_conv filter_id_conv)
    ultimately show ?thesis
      using ih False by (auto simp: directories_then_files_def name_order_Cons)
  next
    case True
    with le have "\<forall>c\<in>set cs. isDirectoryE c \<longrightarrow> lc (nameE a) (nameE c) \<le> 0"
      by (auto simp: compareEnhancedNodes_le)
    with ih True show ?thesis
      by (auto simp: directories_then_files_def name_order_Cons)
  qed
qed

text \<open>A property of the children list, at every node of a tree.\<close>

fun every_level ::
  "(TreeNode list \<Rightarrow> bool) \<Rightarrow> TreeNode \<Rightarrow> bool" where
  "every_level Q (TreeNode n d cs) = (Q cs \<and> (\<forall>c\<in>set cs. every_level Q c))"

fun every_levelE ::
  "(EnhancedTreeNode list \<Rightarrow> bool) \<Rightarrow> EnhancedTreeNode \<Rightarrow> bool" where
  "every_levelE Q (EnhancedTreeNode n d s cs dp) = (Q cs \<and> (\<forall>c\<in>set cs. every_levelE Q c))"

lemma every_level_sel:
  "every_level Q c \<longleftrightarrow> Q (children c) \<and> (\<forall>x\<in>set (children c). every_level Q x)"
  by (cases c) simp

lemma every_levelE_sel:
  "every_levelE Q c \<longleftrightarrow> Q (childrenE c) \<and> (\<forall>x\<in>set (childrenE c). every_levelE Q x)"
  by (cases c) simp

lemma every_level_mono:
  assumes "\<And>cs. P cs \<Longrightarrow> Q cs"
  shows "every_level P c \<Longrightarrow> every_level Q c"
  by (induction c) (auto intro: assms)

lemma every_levelE_mono:
  assumes "\<And>cs. P cs \<Longrightarrow> Q cs"
  shows "every_levelE P c \<Longrightarrow> every_levelE Q c"
  by (induction c) (auto intro: assms)

lemma ordered_insert:
  assumes cons: "consistent lc"
  shows "parts \<noteq> [] \<Longrightarrow> \<forall>c\<in>set cs. every_level (ordered lc) c \<Longrightarrow>
    (\<forall>c\<in>set (upsert lc cs parts isTree). every_level (ordered lc) c) \<and>
    (\<forall>c\<in>set (insertParts lc cs parts isTree). every_level (ordered lc) c) \<and>
    ordered lc (insertParts lc cs parts isTree)"
proof (induction parts arbitrary: cs)
  case Nil
  then show ?case by simp
next
  case (Cons n rest)
  have sub: "(\<forall>c\<in>set (insertParts lc xs rest isTree). every_level (ordered lc) c) \<and>
      ordered lc (insertParts lc xs rest isTree)"
    if "rest \<noteq> []" "\<forall>c\<in>set xs. every_level (ordered lc) c" for xs
    using Cons.IH [OF that] by simp
  have U: "\<forall>c\<in>set (upsert lc cs (n # rest) isTree). every_level (ordered lc) c"
  proof (cases "findIndex (\<lambda>c. name c = n) cs")
    case None
    show ?thesis
      using Cons.prems(2) sub [of "[]"] by (auto simp: upsert_new [OF None] ordered_Nil)
  next
    case (Some i)
    from findIndex_Some [OF Some] have i: "i < length cs" by simp
    then have ci: "every_level (ordered lc) (cs ! i)"
      using Cons.prems(2) by simp
    have "every_level (ordered lc)
            (TreeNode (name (cs ! i)) True (insertParts lc (children (cs ! i)) rest isTree))"
      if "rest \<noteq> []"
      using ci sub [OF that, of "children (cs ! i)"]
      by (simp add: every_level_sel [of "ordered lc" "cs ! i"])
    with ci Cons.prems(2) show ?thesis
      by (auto simp: upsert_found [OF Some] dest!: set_update_subset_insert [THEN subsetD])
  qed
  then show ?case
    by (simp add: insertParts_upsert set_array_sort ordered_array_sort [OF cons])
qed

lemma orderedE_insert:
  assumes cons: "consistent lc"
  shows "parts \<noteq> [] \<Longrightarrow> \<forall>c\<in>set cs. every_levelE (orderedE lc) c \<Longrightarrow>
    (\<forall>c\<in>set (upsertE lc cs parts item d options). every_levelE (orderedE lc) c) \<and>
    (\<forall>c\<in>set (insertPartsE lc cs parts item d options). every_levelE (orderedE lc) c) \<and>
    (orderedE lc cs \<longrightarrow> orderedE lc (insertPartsE lc cs parts item d options))"
proof (induction parts arbitrary: cs d)
  case Nil
  then show ?case by simp
next
  case (Cons n rest)
  have sub: "(\<forall>c\<in>set (insertPartsE lc xs rest item (Suc d) options). every_levelE (orderedE lc) c) \<and>
      (orderedE lc xs \<longrightarrow> orderedE lc (insertPartsE lc xs rest item (Suc d) options))"
    if "rest \<noteq> []" "\<forall>c\<in>set xs. every_levelE (orderedE lc) c" for xs
    using Cons.IH [OF that] by simp
  have U: "\<forall>c\<in>set (upsertE lc cs (n # rest) item d options). every_levelE (orderedE lc) c"
  proof (cases "findIndex (\<lambda>c. nameE c = n) cs")
    case None
    show ?thesis
      using Cons.prems(2) sub [of "[]"] by (auto simp: upsertE_new [OF None] ordered_Nil)
  next
    case (Some i)
    from findIndex_Some [OF Some] have i: "i < length cs" by simp
    then have ci: "every_levelE (orderedE lc) (cs ! i)"
      using Cons.prems(2) by simp
    have "every_levelE (orderedE lc)
            (EnhancedTreeNode (nameE (cs ! i)) True (sizeE (cs ! i))
               (insertPartsE lc (childrenE (cs ! i)) rest item (Suc d) options) (depthE (cs ! i)))"
      if "rest \<noteq> []"
      using ci sub [OF that, of "childrenE (cs ! i)"]
      by (simp add: every_levelE_sel [of "orderedE lc" "cs ! i"])
    with ci Cons.prems(2) show ?thesis
      by (auto simp: upsertE_found [OF Some] dest!: set_update_subset_insert [THEN subsetD])
  qed
  with Cons.prems(2) show ?case
    by (simp add: insertPartsE_upsertE set_array_sort orderedE_array_sort [OF cons])
qed

lemma ordered_buildForest:
  assumes cons: "consistent lc"
  shows "\<forall>c\<in>set (buildForest lc ndp items). every_level (ordered lc) c"
proof (induction items rule: rev_induct)
  case Nil
  show ?case by (simp add: buildForest_def)
next
  case (snoc item items)
  let ?cs = "buildForest lc ndp items"
  have cs: "\<forall>c\<in>set ?cs. every_level (ordered lc) c"
    using snoc by simp
  have step: "buildForest lc ndp (items @ [item]) = forest_step lc ndp ?cs item"
    by (simp add: buildForest_def)
  show ?case
  proof (cases "isMarker ndp item")
    case True
    with cs step show ?thesis by (simp add: forest_step_def)
  next
    case False
    then have "forest_step lc ndp ?cs item =
               upsert lc ?cs (relativeParts ndp item) (itemType item = tree)"
      by (simp add: forest_step_def)
    with ordered_insert [OF cons relativeParts_nonempty cs, of ndp item "itemType item = tree"] step
    show ?thesis by simp
  qed
qed

lemma orderedE_buildForestE:
  assumes cons: "consistent lc"
  shows "\<forall>c\<in>set (buildForestE lc ndp options items). every_levelE (orderedE lc) c"
proof (induction items rule: rev_induct)
  case Nil
  show ?case by (simp add: buildForestE_def)
next
  case (snoc item items)
  let ?cs = "buildForestE lc ndp options items"
  have cs: "\<forall>c\<in>set ?cs. every_levelE (orderedE lc) c"
    using snoc by simp
  have step: "buildForestE lc ndp options (items @ [item]) = forest_stepE lc ndp options ?cs item"
    by (simp add: buildForestE_def)
  show ?case
  proof (cases "isMarker ndp item \<or> filteredOut options (relativeParts ndp item) item")
    case True
    then have "forest_stepE lc ndp options ?cs item = ?cs"
      by (auto simp: forest_stepE_def)
    with cs step show ?thesis by simp
  next
    case False
    then have "forest_stepE lc ndp options ?cs item =
               upsertE lc ?cs (relativeParts ndp item) item 1 options"
      by (simp add: forest_stepE_def)
    with orderedE_insert [OF cons relativeParts_nonempty cs, of ndp item item 1 options] step
    show ?thesis by simp
  qed
qed

definition two_names :: "GitHubTreeItem list" where
  "two_names =
    [\<lparr>itemPath = ''B.ts'', itemType = blob, itemSize = Some 1\<rparr>,
     \<lparr>itemPath = ''a.ts'', itemType = blob, itemSize = Some 2\<rparr>]"

lemma two_names_order:
  "map name (children (buildTree lc two_names [])) =
     (if lc ''B.ts'' ''a.ts'' \<le> 0 then [''B.ts'', ''a.ts''] else [''a.ts'', ''B.ts''])"
  by (simp add: buildTree_def two_names_def normalizePath_def backslashes_to_slashes_def
      strip_leading_slashes_def strip_trailing_slashes_def selected_def buildTree_step_def
      Let_def array_sort_def compareNodes_def)

text \<open>
  Claim C6. For every consistent comparator \<open>lc\<close> in the place of the host's
  \<^verbatim>\<open>localeCompare\<close>, at every level of the tree of either builder the children are in two
  groups, each in the order that \<open>lc\<close> gives to the names: in the plain tree the files come
  first and the directories after them, in the enhanced tree the directories come first
  and the files after them. The order within a group is the comparator's and no other:
  of the two files \<^verbatim>\<open>B.ts\<close> and \<^verbatim>\<open>a.ts\<close> the tree has \<^verbatim>\<open>a.ts\<close> first exactly when
  \<^verbatim>\<open>'B.ts'.localeCompare('a.ts')\<close> is positive, although \<^verbatim>\<open>B\<close> precedes \<^verbatim>\<open>a\<close> byte-wise.
\<close>

theorem children_order:
  assumes "consistent lc"
  shows "every_level (files_then_directories lc) (buildTree lc items dirPath) \<and>
   every_levelE (directories_then_files lc) (buildEnhancedTree lc items dirPath options) \<and>
   map name (children (buildTree lc two_names [])) =
     (if lc ''B.ts'' ''a.ts'' \<le> 0 then [''B.ts'', ''a.ts''] else [''a.ts'', ''B.ts''])"
proof (intro conjI)
  show "map name (children (buildTree lc two_names [])) =
     (if lc ''B.ts'' ''a.ts'' \<le> 0 then [''B.ts'', ''a.ts''] else [''a.ts'', ''B.ts''])"
    by (rule two_names_order)
  have "every_level (ordered lc) (buildTree lc items dirPath)"
    using ordered_buildForest [OF assms]
    by (simp add: buildTree_forest set_array_sort ordered_array_sort [OF assms])
  then show "every_level (files_then_directories lc) (buildTree lc items dirPath)"
    by (rule every_level_mono [rotated]) (rule ordered_files_then_directories)
  have "every_levelE (orderedE lc) (buildEnhancedTree lc items dirPath options)"
    using orderedE_buildForestE [OF assms]
    by (simp add: buildEnhancedTree_forest set_array_sort orderedE_array_sort [OF assms])
  then show "every_levelE (directories_then_files lc) (buildEnhancedTree lc items dirPath options)"
    by (rule every_levelE_mono [rotated]) (rule orderedE_directories_then_files)
qed

theorem children_order_witness:
  "every_level (files_then_directories byteCompare) (buildTree byteCompare example_items []) \<and>
   every_levelE (directories_then_files byteCompare)
     (buildEnhancedTree byteCompare example_items [] defaultOptions) \<and>
   map name (children (buildTree byteCompare example_items [])) = [''README.md'', ''src''] \<and>
   map nameE (childrenE (buildEnhancedTree byteCompare example_items [] defaultOptions)) =
     [''src'', ''README.md'']"
proof -
  have "map name (children (buildTree byteCompare example_items [])) = [''README.md'', ''src'']"
    by code_simp
  moreover have
    "map nameE (childrenE (buildEnhancedTree byteCompare example_items [] defaultOptions)) =
     [''src'', ''README.md'']"
    by code_simp
  ultimately show ?thesis
    using children_order [OF consistent_byteCompare, of example_items "[]" defaultOptions]
    by simp
qed

section \<open>The paths of a tree\<close>

text \<open>
  Every node of a forest with the path of names that leads to it and its directory flag.
\<close>

fun fpaths :: "TreeNode list \<Rightarrow> (string list \<times> bool) list" where
  "fpaths [] = []"
| "fpaths (TreeNode n d cs # rest) =
    ([n], d) # map (\<lambda>(p, b). (n # p, b)) (fpaths cs) @ fpaths rest"

fun fpathsE :: "EnhancedTreeNode list \<Rightarrow> (string list \<times> bool) list" where
  "fpathsE [] = []"
| "fpathsE (EnhancedTreeNode n d s cs dp # rest) =
    ([n], d) # map (\<lambda>(p, b). (n # p, b)) (fpathsE cs) @ fpathsE rest"

definition below ::
  "string \<Rightarrow> (string list \<times> bool) set \<Rightarrow> (string list \<times> bool) set" where
  "below n C = (\<lambda>(p, b). (n # p, b)) ` C"

definition node_paths :: "TreeNode \<Rightarrow> (string list \<times> bool) set" where
  "node_paths c = insert ([name c], isDirectory c) (below (name c) (set (fpaths (children c))))"

definition node_pathsE :: "EnhancedTreeNode \<Rightarrow> (string list \<times> bool) set" where
  "node_pathsE c =
    insert ([nameE c], isDirectoryE c) (below (nameE c) (set (fpathsE (childrenE c))))"

lemma set_fpaths: "set (fpaths cs) = (\<Union>c\<in>set cs. node_paths c)"
  by (induction cs rule: fpaths.induct) (auto simp: node_paths_def below_def)

lemma set_fpathsE: "set (fpathsE cs) = (\<Union>c\<in>set cs. node_pathsE c)"
  by (induction cs rule: fpathsE.induct) (auto simp: node_pathsE_def below_def)

text \<open>
  The effect of one entry on the set of paths: every proper prefix of its relative path
  becomes a directory, and the path itself is added with the entry's type unless it is
  there already (or the leaf is dropped by the extension filter).
\<close>

definition stepP ::
  "string list \<Rightarrow> bool \<Rightarrow> bool \<Rightarrow> (string list \<times> bool) set \<Rightarrow> (string list \<times> bool) set" where
  "stepP ps t leaf S =
    {(q, b). (q, b) \<in> S \<and> (b \<or> \<not> strict_prefix q ps)} \<union>
    {(q, b). b \<and> q \<noteq> [] \<and> strict_prefix q ps} \<union>
    (if leaf \<and> ps \<notin> fst ` S then {(ps, t)} else {})"

lemma strict_prefix_Nil: "strict_prefix [] xs \<longleftrightarrow> xs \<noteq> []"
  by (cases xs) auto

lemma stepP_Cons:
  assumes rest: "rest \<noteq> []"
    and A: "\<forall>(q, b)\<in>A. q \<noteq> [] \<and> hd q \<noteq> n"
    and C: "\<forall>(q, b)\<in>C. q \<noteq> []"
    and D: "D \<subseteq> {([n], True), ([n], False)}"
  shows "stepP (n # rest) t leaf (A \<union> D \<union> below n C) =
    A \<union> {([n], True)} \<union> below n (stepP rest t leaf C)"
proof (rule set_eqI)
  fix x :: "string list \<times> bool"
  obtain q b where x: "x = (q, b)" by (cases x)
  have inO: "(q, b) \<in> A \<Longrightarrow> q \<noteq> [] \<and> hd q \<noteq> n" for q b
    using A by auto
  have inC: "(q, b) \<in> C \<Longrightarrow> q \<noteq> []" for q b
    using C by auto
  have inD: "(q, b) \<in> D \<Longrightarrow> q = [n]" for q b
    using D by auto
  have bel: "(q, b) \<in> below n X \<longleftrightarrow> (\<exists>q'. q = n # q' \<and> (q', b) \<in> X)" for q b X
    by (auto simp: below_def)
  have fstbel: "n # rest \<in> fst ` (A \<union> D \<union> below n C) \<longleftrightarrow> rest \<in> fst ` C"
  proof
    assume "n # rest \<in> fst ` (A \<union> D \<union> below n C)"
    then obtain b where "(n # rest, b) \<in> A \<union> D \<union> below n C"
      by fastforce
    with rest inO [of "n # rest" b] inD [of "n # rest" b] have "(rest, b) \<in> C"
      by (auto simp: bel)
    then show "rest \<in> fst ` C"
      by (rule rev_image_eqI) simp
  next
    assume "rest \<in> fst ` C"
    then obtain b where "(rest, b) \<in> C"
      by auto
    then have "(n # rest, b) \<in> A \<union> D \<union> below n C"
      by (simp add: bel)
    then show "n # rest \<in> fst ` (A \<union> D \<union> below n C)"
      by (rule rev_image_eqI) simp
  qed
  show "x \<in> stepP (n # rest) t leaf (A \<union> D \<union> below n C) \<longleftrightarrow>
        x \<in> A \<union> {([n], True)} \<union> below n (stepP rest t leaf C)"
  proof (cases q)
    case Nil
    then show ?thesis
      unfolding x using rest by (auto simp: stepP_def bel fstbel dest: inO inD inC)
  next
    case (Cons m q')
    show ?thesis
    proof (cases "m = n")
      case False
      with Cons show ?thesis
        unfolding x using rest by (auto simp: stepP_def bel fstbel dest: inO inD inC)
    next
      case True
      show ?thesis
      proof (cases "q' = []")
        case q': True
        with Cons True show ?thesis
          unfolding x using rest
          by (auto simp: stepP_def bel fstbel strict_prefix_Nil dest: inO inD inC)
      next
        case q': False
        with Cons True show ?thesis
          unfolding x using rest
          by (auto simp: stepP_def bel fstbel dest: inO inD inC split: if_splits)
      qed
    qed
  qed
qed



lemma strict_prefix_single: "strict_prefix q [n] \<longleftrightarrow> q = []"
  by (cases q) auto

lemma stepP_single:
  assumes "\<forall>(q, b)\<in>S. q \<noteq> []"
  shows "stepP [n] t leaf S = S \<union> (if leaf \<and> [n] \<notin> fst ` S then {([n], t)} else {})"
proof -
  have 1: "{(q, b). (q, b) \<in> S \<and> (b \<or> \<not> strict_prefix q [n])} = S"
    using assms by (auto simp: strict_prefix_single)
  have 2: "{(q, b). b \<and> q \<noteq> [] \<and> strict_prefix q [n]} = {}"
    by (auto simp: strict_prefix_single)
  show ?thesis
    unfolding stepP_def 1 2 by simp
qed

lemma node_paths_hd: "(q, b) \<in> node_paths c \<Longrightarrow> q \<noteq> [] \<and> hd q = name c"
  by (auto simp: node_paths_def below_def)

lemma fpaths_nonempty: "\<forall>(q, b)\<in>set (fpaths cs). q \<noteq> []"
  by (auto simp: set_fpaths dest: node_paths_hd)

lemma fpaths_other_names:
  assumes "\<forall>c\<in>X. name c \<noteq> n"
  shows "\<forall>(q, b)\<in>(\<Union>c\<in>X. node_paths c). q \<noteq> [] \<and> hd q \<noteq> n"
proof (clarify, rule conjI)
  fix q b c
  assume c: "c \<in> X" and qb: "(q, b) \<in> node_paths c"
  from node_paths_hd [OF qb] show "q \<noteq> []" by simp
  from node_paths_hd [OF qb] assms c show "hd q \<noteq> n" by auto
qed

lemma single_in_fpaths: "[n] \<in> fst ` set (fpaths cs) \<longleftrightarrow> n \<in> name ` set cs"
proof
  assume "[n] \<in> fst ` set (fpaths cs)"
  then obtain b where "([n], b) \<in> set (fpaths cs)"
    by auto
  then obtain c where "c \<in> set cs" "([n], b) \<in> node_paths c"
    unfolding set_fpaths by blast
  with node_paths_hd [of "[n]" b c] show "n \<in> name ` set cs"
    by auto
next
  assume "n \<in> name ` set cs"
  then obtain c where c: "c \<in> set cs" "name c = n"
    by auto
  then have "([n], isDirectory c) \<in> node_paths c"
    by (simp add: node_paths_def)
  with c have "([n], isDirectory c) \<in> set (fpaths cs)"
    unfolding set_fpaths by blast
  then show "[n] \<in> fst ` set (fpaths cs)"
    by (rule rev_image_eqI) simp
qed

text \<open>No two children of a node have the same name.\<close>

definition distinct_names :: "TreeNode list \<Rightarrow> bool" where
  "distinct_names cs = distinct (map name cs)"

lemma distinct_names_array_sort:
  "distinct_names (array_sort (compareNodes lc) xs) = distinct_names xs"
  by (simp add: distinct_names_def distinct_map_array_sort)

lemma distinct_names_upsert:
  assumes "distinct_names cs"
  shows "distinct_names (upsert lc cs (n # rest) isTree)"
proof (cases "findIndex (\<lambda>c. name c = n) cs")
  case None
  then have "n \<notin> name ` set cs"
    by (auto simp: findIndex_None)
  with assms show ?thesis
    by (simp add: upsert_new [OF None] distinct_names_def)
next
  case (Some i)
  from findIndex_Some [OF Some] have i: "i < length cs" and n: "name (cs ! i) = n" by simp_all
  have "map name (cs[i := c']) = map name cs" if "name c' = n" for c'
    using that i n by (simp add: map_update list_update_same_conv)
  with assms n show ?thesis
    by (simp add: upsert_found [OF Some] distinct_names_def)
qed

lemma names_insert:
  "parts \<noteq> [] \<Longrightarrow> \<forall>c\<in>set cs. every_level distinct_names c \<Longrightarrow>
    (\<forall>c\<in>set (upsert lc cs parts isTree). every_level distinct_names c) \<and>
    (\<forall>c\<in>set (insertParts lc cs parts isTree). every_level distinct_names c) \<and>
    (distinct_names cs \<longrightarrow> distinct_names (insertParts lc cs parts isTree))"
proof (induction parts arbitrary: cs)
  case Nil
  then show ?case by simp
next
  case (Cons n rest)
  have sub: "(\<forall>c\<in>set (insertParts lc xs rest isTree). every_level distinct_names c) \<and>
      (distinct_names xs \<longrightarrow> distinct_names (insertParts lc xs rest isTree))"
    if "rest \<noteq> []" "\<forall>c\<in>set xs. every_level distinct_names c" for xs
    using Cons.IH [OF that] by simp
  have e: "distinct_names []"
    by (simp add: distinct_names_def)
  have U: "\<forall>c\<in>set (upsert lc cs (n # rest) isTree). every_level distinct_names c"
  proof (cases "findIndex (\<lambda>c. name c = n) cs")
    case None
    show ?thesis
      using Cons.prems(2) sub [of "[]"] e by (auto simp: upsert_new [OF None])
  next
    case (Some i)
    from findIndex_Some [OF Some] have i: "i < length cs" by simp
    then have ci: "every_level distinct_names (cs ! i)"
      using Cons.prems(2) by simp
    have "every_level distinct_names
            (TreeNode (name (cs ! i)) True (insertParts lc (children (cs ! i)) rest isTree))"
      if "rest \<noteq> []"
      using ci sub [OF that, of "children (cs ! i)"]
      by (simp add: every_level_sel [of distinct_names "cs ! i"])
    with ci Cons.prems(2) show ?thesis
      by (auto simp: upsert_found [OF Some] dest!: set_update_subset_insert [THEN subsetD])
  qed
  then show ?case
    using distinct_names_upsert [of cs lc n rest isTree]
    by (simp add: insertParts_upsert set_array_sort distinct_names_array_sort)
qed

lemma fpaths_array_sort: "set (fpaths (array_sort cmp xs)) = set (fpaths xs)"
  by (simp add: set_fpaths set_array_sort)

lemma node_paths_TreeNode:
  "node_paths (TreeNode n d cs) = insert ([n], d) (below n (set (fpaths cs)))"
  by (simp add: node_paths_def)

lemma node_paths_leaf: "node_paths (TreeNode n d []) = {([n], d)}"
  by (simp add: node_paths_def below_def)

lemma fpaths_snoc: "set (fpaths (cs @ [x])) = set (fpaths cs) \<union> node_paths x"
  unfolding set_fpaths by auto

lemma fpaths_split:
  assumes "i < length cs"
  shows "set (fpaths cs) = (\<Union>c\<in>set cs - {cs ! i}. node_paths c) \<union> node_paths (cs ! i)"
proof -
  have c0: "cs ! i \<in> set cs"
    using assms by simp
  have "node_paths (cs ! i) \<union> (\<Union>c\<in>set cs - {cs ! i}. node_paths c) =
        (\<Union>c\<in>insert (cs ! i) (set cs - {cs ! i}). node_paths c)"
    by (rule UN_insert [symmetric])
  also have "insert (cs ! i) (set cs - {cs ! i}) = set cs"
    by (rule insert_Diff [OF c0])
  finally show ?thesis
    unfolding set_fpaths by (simp only: Un_commute)
qed

lemma fpaths_update:
  assumes "distinct_names cs" and "i < length cs"
  shows "set (fpaths (cs[i := c'])) = (\<Union>c\<in>set cs - {cs ! i}. node_paths c) \<union> node_paths c'"
proof -
  have "distinct cs"
    using assms(1) by (simp add: distinct_names_def distinct_map)
  then have "set (cs[i := c']) = insert c' (set cs - {cs ! i})"
    using assms(2) by (rule set_update_distinct)
  then have "set (fpaths (cs[i := c'])) = (\<Union>c\<in>insert c' (set cs - {cs ! i}). node_paths c)"
    unfolding set_fpaths by (rule arg_cong)
  also have "\<dots> = node_paths c' \<union> (\<Union>c\<in>set cs - {cs ! i}. node_paths c)"
    by (rule UN_insert)
  finally show ?thesis
    by (simp only: Un_commute)
qed

lemma other_names:
  assumes "distinct_names cs" and "i < length cs"
  shows "\<forall>c\<in>set cs - {cs ! i}. name c \<noteq> name (cs ! i)"
proof
  fix c
  assume c: "c \<in> set cs - {cs ! i}"
  have "inj_on name (set cs)"
    using assms(1) by (simp add: distinct_names_def distinct_map)
  moreover have "cs ! i \<in> set cs"
    using assms(2) by simp
  ultimately show "name c \<noteq> name (cs ! i)"
    using c by (auto dest: inj_onD)
qed

lemma paths_insert:
  "parts \<noteq> [] \<Longrightarrow> distinct_names cs \<Longrightarrow> \<forall>c\<in>set cs. every_level distinct_names c \<Longrightarrow>
    set (fpaths (upsert lc cs parts isTree)) = stepP parts isTree True (set (fpaths cs))"
proof (induction parts arbitrary: cs)
  case Nil
  then show ?case by simp
next
  case (Cons n rest)
  let ?S = "set (fpaths cs)"
  have ne: "\<forall>(q, b)\<in>?S. q \<noteq> []"
    by (rule fpaths_nonempty)
  have sub: "set (fpaths (insertParts lc xs rest isTree)) = stepP rest isTree True (set (fpaths xs))"
    if "rest \<noteq> []" "distinct_names xs" "\<forall>c\<in>set xs. every_level distinct_names c" for xs
    using Cons.IH [OF that] that(1) by (simp add: insertParts_upsert fpaths_array_sort)
  show ?case
  proof (cases "findIndex (\<lambda>c. name c = n) cs")
    case None
    then have nn: "\<forall>c\<in>set cs. name c \<noteq> n"
      by (simp add: findIndex_None)
    then have notin: "[n] \<notin> fst ` ?S"
      unfolding single_in_fpaths by blast
    show ?thesis
    proof (cases "rest = []")
      case True
      have "set (fpaths (upsert lc cs (n # rest) isTree)) = ?S \<union> {([n], isTree)}"
        using True by (simp add: upsert_new [OF None] fpaths_snoc node_paths_leaf)
      also have "\<dots> = stepP [n] isTree True ?S"
        using notin by (simp add: stepP_single [OF ne])
      finally show ?thesis
        using True by simp
    next
      case False
      have A: "\<forall>(q, b)\<in>?S. q \<noteq> [] \<and> hd q \<noteq> n"
        unfolding set_fpaths using nn by (rule fpaths_other_names)
      have ins: "set (fpaths (insertParts lc [] rest isTree)) = stepP rest isTree True {}"
        using sub [OF False, of "[]"] by (simp add: distinct_names_def)
      have e: "?S \<union> {} \<union> below n {} = ?S"
        by (simp add: below_def)
      have "set (fpaths (upsert lc cs (n # rest) isTree)) =
            ?S \<union> node_paths (TreeNode n True (insertParts lc [] rest isTree))"
        using False by (simp add: upsert_new [OF None] fpaths_snoc)
      also have "\<dots> = ?S \<union> {([n], True)} \<union> below n (stepP rest isTree True {})"
        by (simp add: node_paths_TreeNode ins)
      also have "\<dots> = stepP (n # rest) isTree True (?S \<union> {} \<union> below n {})"
        by (rule stepP_Cons [OF False A, symmetric]) simp_all
      finally show ?thesis
        unfolding e .
    qed
  next
    case (Some i)
    from findIndex_Some [OF Some] have i: "i < length cs" and n: "name (cs ! i) = n" by simp_all
    let ?c0 = "cs ! i"
    let ?A = "\<Union>c\<in>set cs - {?c0}. node_paths c"
    let ?C = "set (fpaths (children ?c0))"
    have c0: "?c0 \<in> set cs"
      using i by simp
    have S: "?S = ?A \<union> {([n], isDirectory ?c0)} \<union> below n ?C"
      unfolding fpaths_split [OF i] node_paths_def n by simp
    show ?thesis
    proof (cases "rest = []")
      case True
      have "[n] \<in> fst ` ?S"
        unfolding single_in_fpaths using c0 n by blast
      then have "stepP [n] isTree True ?S = ?S"
        by (simp add: stepP_single [OF ne])
      with True show ?thesis
        by (simp add: upsert_found [OF Some])
    next
      case False
      let ?c' = "TreeNode (name ?c0) True (insertParts lc (children ?c0) rest isTree)"
      have A: "\<forall>(q, b)\<in>?A. q \<noteq> [] \<and> hd q \<noteq> n"
        using other_names [OF Cons.prems(2) i] unfolding n by (rule fpaths_other_names)
      have C: "\<forall>(q, b)\<in>?C. q \<noteq> []"
        by (rule fpaths_nonempty)
      have lv: "every_level distinct_names ?c0"
        using Cons.prems(3) c0 by simp
      have ch: "set (fpaths (insertParts lc (children ?c0) rest isTree)) =
                stepP rest isTree True ?C"
        using lv by (intro sub [OF False]) (simp_all add: every_level_sel [of _ ?c0])
      have D: "{([n], isDirectory ?c0)} \<subseteq> {([n], True), ([n], False)}"
        by auto
      have "set (fpaths (cs[i := ?c'])) = ?A \<union> node_paths ?c'"
        by (rule fpaths_update [OF Cons.prems(2) i])
      also have "node_paths ?c' = insert ([n], True) (below n (stepP rest isTree True ?C))"
        unfolding node_paths_TreeNode ch n ..
      also have "?A \<union> insert ([n], True) (below n (stepP rest isTree True ?C)) =
          ?A \<union> {([n], True)} \<union> below n (stepP rest isTree True ?C)"
        by simp
      also have "\<dots> = stepP (n # rest) isTree True
          (?A \<union> {([n], isDirectory ?c0)} \<union> below n ?C)"
        by (rule stepP_Cons [OF False A C D, symmetric])
      finally have "set (fpaths (cs[i := ?c'])) = stepP (n # rest) isTree True ?S"
        unfolding S [symmetric] .
      then show ?thesis
        using False by (simp add: upsert_found [OF Some])
    qed
  qed
qed

lemma node_pathsE_hd: "(q, b) \<in> node_pathsE c \<Longrightarrow> q \<noteq> [] \<and> hd q = nameE c"
  by (auto simp: node_pathsE_def below_def)

lemma fpathsE_nonempty: "\<forall>(q, b)\<in>set (fpathsE cs). q \<noteq> []"
  by (auto simp: set_fpathsE dest: node_pathsE_hd)

lemma fpathsE_other_names:
  assumes "\<forall>c\<in>X. nameE c \<noteq> n"
  shows "\<forall>(q, b)\<in>(\<Union>c\<in>X. node_pathsE c). q \<noteq> [] \<and> hd q \<noteq> n"
proof (clarify, rule conjI)
  fix q b c
  assume c: "c \<in> X" and qb: "(q, b) \<in> node_pathsE c"
  from node_pathsE_hd [OF qb] show "q \<noteq> []" by simp
  from node_pathsE_hd [OF qb] assms c show "hd q \<noteq> n" by auto
qed

lemma single_in_fpathsE: "[n] \<in> fst ` set (fpathsE cs) \<longleftrightarrow> n \<in> nameE ` set cs"
proof
  assume "[n] \<in> fst ` set (fpathsE cs)"
  then obtain b where "([n], b) \<in> set (fpathsE cs)"
    by auto
  then obtain c where "c \<in> set cs" "([n], b) \<in> node_pathsE c"
    unfolding set_fpathsE by blast
  with node_pathsE_hd [of "[n]" b c] show "n \<in> nameE ` set cs"
    by auto
next
  assume "n \<in> nameE ` set cs"
  then obtain c where c: "c \<in> set cs" "nameE c = n"
    by auto
  then have "([n], isDirectoryE c) \<in> node_pathsE c"
    by (simp add: node_pathsE_def)
  with c have "([n], isDirectoryE c) \<in> set (fpathsE cs)"
    unfolding set_fpathsE by blast
  then show "[n] \<in> fst ` set (fpathsE cs)"
    by (rule rev_image_eqI) simp
qed

definition distinct_namesE :: "EnhancedTreeNode list \<Rightarrow> bool" where
  "distinct_namesE cs = distinct (map nameE cs)"

lemma distinct_namesE_array_sort:
  "distinct_namesE (array_sort (compareEnhancedNodes lc) xs) = distinct_namesE xs"
  by (simp add: distinct_namesE_def distinct_map_array_sort)

lemma distinct_namesE_upsertE:
  assumes "distinct_namesE cs"
  shows "distinct_namesE (upsertE lc cs (n # rest) item d options)"
proof (cases "findIndex (\<lambda>c. nameE c = n) cs")
  case None
  then have "n \<notin> nameE ` set cs"
    by (auto simp: findIndex_None)
  with assms show ?thesis
    by (simp add: upsertE_new [OF None] distinct_namesE_def)
next
  case (Some i)
  from findIndex_Some [OF Some] have i: "i < length cs" and n: "nameE (cs ! i) = n" by simp_all
  have "map nameE (cs[i := c']) = map nameE cs" if "nameE c' = n" for c'
    using that i n by (simp add: map_update list_update_same_conv)
  with assms n show ?thesis
    by (simp add: upsertE_found [OF Some] distinct_namesE_def)
qed

lemma names_insertE:
  "parts \<noteq> [] \<Longrightarrow> \<forall>c\<in>set cs. every_levelE distinct_namesE c \<Longrightarrow>
    (\<forall>c\<in>set (upsertE lc cs parts item d options). every_levelE distinct_namesE c) \<and>
    (\<forall>c\<in>set (insertPartsE lc cs parts item d options). every_levelE distinct_namesE c) \<and>
    (distinct_namesE cs \<longrightarrow> distinct_namesE (insertPartsE lc cs parts item d options))"
proof (induction parts arbitrary: cs d)
  case Nil
  then show ?case by simp
next
  case (Cons n rest)
  have sub: "(\<forall>c\<in>set (insertPartsE lc xs rest item (Suc d) options).
               every_levelE distinct_namesE c) \<and>
      (distinct_namesE xs \<longrightarrow> distinct_namesE (insertPartsE lc xs rest item (Suc d) options))"
    if "rest \<noteq> []" "\<forall>c\<in>set xs. every_levelE distinct_namesE c" for xs
    using Cons.IH [OF that] by simp
  have e: "distinct_namesE []"
    by (simp add: distinct_namesE_def)
  have U: "\<forall>c\<in>set (upsertE lc cs (n # rest) item d options). every_levelE distinct_namesE c"
  proof (cases "findIndex (\<lambda>c. nameE c = n) cs")
    case None
    show ?thesis
      using Cons.prems(2) sub [of "[]"] e by (auto simp: upsertE_new [OF None])
  next
    case (Some i)
    from findIndex_Some [OF Some] have i: "i < length cs" by simp
    then have ci: "every_levelE distinct_namesE (cs ! i)"
      using Cons.prems(2) by simp
    have "every_levelE distinct_namesE
            (EnhancedTreeNode (nameE (cs ! i)) True (sizeE (cs ! i))
               (insertPartsE lc (childrenE (cs ! i)) rest item (Suc d) options) (depthE (cs ! i)))"
      if "rest \<noteq> []"
      using ci sub [OF that, of "childrenE (cs ! i)"]
      by (simp add: every_levelE_sel [of distinct_namesE "cs ! i"])
    with ci Cons.prems(2) show ?thesis
      by (auto simp: upsertE_found [OF Some] dest!: set_update_subset_insert [THEN subsetD])
  qed
  with Cons.prems(2) show ?case
    using distinct_namesE_upsertE [of cs lc n rest item d options]
    by (simp add: insertPartsE_upsertE set_array_sort distinct_namesE_array_sort)
qed

lemma fpathsE_array_sort: "set (fpathsE (array_sort cmp xs)) = set (fpathsE xs)"
  by (simp add: set_fpathsE set_array_sort)

lemma node_pathsE_Node:
  "node_pathsE (EnhancedTreeNode n d s cs dp) = insert ([n], d) (below n (set (fpathsE cs)))"
  by (simp add: node_pathsE_def)

lemma node_pathsE_leaf: "node_pathsE (EnhancedTreeNode n d s [] dp) = {([n], d)}"
  by (simp add: node_pathsE_def below_def)

lemma fpathsE_snoc: "set (fpathsE (cs @ [x])) = set (fpathsE cs) \<union> node_pathsE x"
  unfolding set_fpathsE by auto

lemma fpathsE_split:
  assumes "i < length cs"
  shows "set (fpathsE cs) = (\<Union>c\<in>set cs - {cs ! i}. node_pathsE c) \<union> node_pathsE (cs ! i)"
proof -
  have c0: "cs ! i \<in> set cs"
    using assms by simp
  have "node_pathsE (cs ! i) \<union> (\<Union>c\<in>set cs - {cs ! i}. node_pathsE c) =
        (\<Union>c\<in>insert (cs ! i) (set cs - {cs ! i}). node_pathsE c)"
    by (rule UN_insert [symmetric])
  also have "insert (cs ! i) (set cs - {cs ! i}) = set cs"
    by (rule insert_Diff [OF c0])
  finally show ?thesis
    unfolding set_fpathsE by (simp only: Un_commute)
qed

lemma fpathsE_update:
  assumes "distinct_namesE cs" and "i < length cs"
  shows "set (fpathsE (cs[i := c'])) =
    (\<Union>c\<in>set cs - {cs ! i}. node_pathsE c) \<union> node_pathsE c'"
proof -
  have "distinct cs"
    using assms(1) by (simp add: distinct_namesE_def distinct_map)
  then have "set (cs[i := c']) = insert c' (set cs - {cs ! i})"
    using assms(2) by (rule set_update_distinct)
  then have "set (fpathsE (cs[i := c'])) =
      (\<Union>c\<in>insert c' (set cs - {cs ! i}). node_pathsE c)"
    unfolding set_fpathsE by (rule arg_cong)
  also have "\<dots> = node_pathsE c' \<union> (\<Union>c\<in>set cs - {cs ! i}. node_pathsE c)"
    by (rule UN_insert)
  finally show ?thesis
    by (simp only: Un_commute)
qed

lemma other_namesE:
  assumes "distinct_namesE cs" and "i < length cs"
  shows "\<forall>c\<in>set cs - {cs ! i}. nameE c \<noteq> nameE (cs ! i)"
proof
  fix c
  assume c: "c \<in> set cs - {cs ! i}"
  have "inj_on nameE (set cs)"
    using assms(1) by (simp add: distinct_namesE_def distinct_map)
  moreover have "cs ! i \<in> set cs"
    using assms(2) by simp
  ultimately show "nameE c \<noteq> nameE (cs ! i)"
    using c by (auto dest: inj_onD)
qed

text \<open>Whether the extension filter lets the last segment of an entry into the tree.\<close>

definition keepsLeaf ::
  "SubTreeOptions \<Rightarrow> string list \<Rightarrow> GitHubTreeItem \<Rightarrow> bool" where
  "keepsLeaf options parts item \<longleftrightarrow>
    \<not> (itemType item = blob \<and> \<not> matchesExtFilter (last parts) (fileExtFilter options))"

lemma keepsLeaf_Cons:
  "rest \<noteq> [] \<Longrightarrow> keepsLeaf options (n # rest) item = keepsLeaf options rest item"
  by (simp add: keepsLeaf_def)

lemma filteredOut_Cons:
  "filteredOut options (n # rest) item \<longleftrightarrow> rest = [] \<and> \<not> keepsLeaf options [n] item"
  by (auto simp: filteredOut_def keepsLeaf_def)

lemma pathsE_insert:
  "parts \<noteq> [] \<Longrightarrow> distinct_namesE cs \<Longrightarrow> \<forall>c\<in>set cs. every_levelE distinct_namesE c \<Longrightarrow>
    set (fpathsE (insertPartsE lc cs parts item d options)) =
      stepP parts (itemType item = tree) (keepsLeaf options parts item) (set (fpathsE cs)) \<and>
    (\<not> filteredOut options parts item \<longrightarrow>
      set (fpathsE (upsertE lc cs parts item d options)) =
        stepP parts (itemType item = tree) (keepsLeaf options parts item) (set (fpathsE cs)))"
proof (induction parts arbitrary: cs d)
  case Nil
  then show ?case by simp
next
  case (Cons n rest)
  let ?S = "set (fpathsE cs)"
  let ?t = "itemType item = tree"
  let ?k = "keepsLeaf options (n # rest) item"
  have ne: "\<forall>(q, b)\<in>?S. q \<noteq> []"
    by (rule fpathsE_nonempty)
  have sub: "set (fpathsE (insertPartsE lc xs rest item (Suc d) options)) =
      stepP rest ?t ?k (set (fpathsE xs))"
    if "rest \<noteq> []" "distinct_namesE xs" "\<forall>c\<in>set xs. every_levelE distinct_namesE c" for xs
    using Cons.IH [OF that, of "Suc d"] that(1) by (simp add: keepsLeaf_Cons)
  have U: "set (fpathsE (upsertE lc cs (n # rest) item d options)) = stepP (n # rest) ?t ?k ?S"
    if nf: "\<not> filteredOut options (n # rest) item"
  proof (cases "findIndex (\<lambda>c. nameE c = n) cs")
    case None
    then have nn: "\<forall>c\<in>set cs. nameE c \<noteq> n"
      by (simp add: findIndex_None)
    then have notin: "[n] \<notin> fst ` ?S"
      unfolding single_in_fpathsE by blast
    show ?thesis
    proof (cases "rest = []")
      case True
      with nf have k: "?k"
        by (simp add: filteredOut_Cons)
      have "set (fpathsE (upsertE lc cs (n # rest) item d options)) = ?S \<union> {([n], ?t)}"
        using True by (simp add: upsertE_new [OF None] fpathsE_snoc node_pathsE_leaf)
      also have "\<dots> = stepP [n] ?t True ?S"
        using notin by (simp add: stepP_single [OF ne])
      finally show ?thesis
        using True k by simp
    next
      case False
      have A: "\<forall>(q, b)\<in>?S. q \<noteq> [] \<and> hd q \<noteq> n"
        unfolding set_fpathsE using nn by (rule fpathsE_other_names)
      have ins: "set (fpathsE (insertPartsE lc [] rest item (Suc d) options)) = stepP rest ?t ?k {}"
        using sub [OF False, of "[]"] by (simp add: distinct_namesE_def)
      have e: "?S \<union> {} \<union> below n {} = ?S"
        by (simp add: below_def)
      have "set (fpathsE (upsertE lc cs (n # rest) item d options)) =
            ?S \<union> node_pathsE (EnhancedTreeNode n True None
                    (insertPartsE lc [] rest item (Suc d) options) d)"
        using False by (simp add: upsertE_new [OF None] fpathsE_snoc)
      also have "\<dots> = ?S \<union> {([n], True)} \<union> below n (stepP rest ?t ?k {})"
        by (simp add: node_pathsE_Node ins)
      also have "\<dots> = stepP (n # rest) ?t ?k (?S \<union> {} \<union> below n {})"
        by (rule stepP_Cons [OF False A, symmetric]) simp_all
      finally show ?thesis
        unfolding e .
    qed
  next
    case (Some i)
    from findIndex_Some [OF Some] have i: "i < length cs" and n: "nameE (cs ! i) = n"
      by simp_all
    let ?c0 = "cs ! i"
    let ?A = "\<Union>c\<in>set cs - {?c0}. node_pathsE c"
    let ?C = "set (fpathsE (childrenE ?c0))"
    have c0: "?c0 \<in> set cs"
      using i by simp
    have S: "?S = ?A \<union> {([n], isDirectoryE ?c0)} \<union> below n ?C"
      unfolding fpathsE_split [OF i] node_pathsE_def n by simp
    show ?thesis
    proof (cases "rest = []")
      case True
      have "[n] \<in> fst ` ?S"
        unfolding single_in_fpathsE using c0 n by blast
      then have "stepP [n] ?t ?k ?S = ?S"
        by (simp add: stepP_single [OF ne])
      with True show ?thesis
        by (simp add: upsertE_found [OF Some])
    next
      case False
      let ?c' = "EnhancedTreeNode (nameE ?c0) True (sizeE ?c0)
        (insertPartsE lc (childrenE ?c0) rest item (Suc d) options) (depthE ?c0)"
      have A: "\<forall>(q, b)\<in>?A. q \<noteq> [] \<and> hd q \<noteq> n"
        using other_namesE [OF Cons.prems(2) i] unfolding n by (rule fpathsE_other_names)
      have C: "\<forall>(q, b)\<in>?C. q \<noteq> []"
        by (rule fpathsE_nonempty)
      have lv: "every_levelE distinct_namesE ?c0"
        using Cons.prems(3) c0 by simp
      have ch: "set (fpathsE (insertPartsE lc (childrenE ?c0) rest item (Suc d) options)) =
                stepP rest ?t ?k ?C"
        using lv by (intro sub [OF False]) (simp_all add: every_levelE_sel [of _ ?c0])
      have D: "{([n], isDirectoryE ?c0)} \<subseteq> {([n], True), ([n], False)}"
        by auto
      have "set (fpathsE (cs[i := ?c'])) = ?A \<union> node_pathsE ?c'"
        by (rule fpathsE_update [OF Cons.prems(2) i])
      also have "node_pathsE ?c' = insert ([n], True) (below n (stepP rest ?t ?k ?C))"
        unfolding node_pathsE_Node ch n ..
      also have "?A \<union> insert ([n], True) (below n (stepP rest ?t ?k ?C)) =
          ?A \<union> {([n], True)} \<union> below n (stepP rest ?t ?k ?C)"
        by simp
      also have "\<dots> = stepP (n # rest) ?t ?k
          (?A \<union> {([n], isDirectoryE ?c0)} \<union> below n ?C)"
        by (rule stepP_Cons [OF False A C D, symmetric])
      finally have "set (fpathsE (cs[i := ?c'])) = stepP (n # rest) ?t ?k ?S"
        unfolding S [symmetric] .
      then show ?thesis
        using False by (simp add: upsertE_found [OF Some])
    qed
  qed
  have I: "set (fpathsE (insertPartsE lc cs (n # rest) item d options)) = stepP (n # rest) ?t ?k ?S"
  proof (cases "filteredOut options (n # rest) item")
    case True
    then have "rest = []" and "\<not> ?k"
      by (simp_all add: filteredOut_Cons)
    then have "stepP (n # rest) ?t ?k ?S = ?S"
      by (simp add: stepP_single [OF ne])
    with True show ?thesis
      by (simp add: insertPartsE_upsertE)
  next
    case False
    with U [OF False] show ?thesis
      by (simp add: insertPartsE_upsertE fpathsE_array_sort)
  qed
  from I U show ?case
    by blast
qed

subsection \<open>The paths of the built trees\<close>

lemma names_buildForest:
  "distinct_names (buildForest lc ndp items) \<and>
   (\<forall>c\<in>set (buildForest lc ndp items). every_level distinct_names c)"
proof (induction items rule: rev_induct)
  case Nil
  show ?case by (simp add: buildForest_def distinct_names_def)
next
  case (snoc item items)
  let ?cs = "buildForest lc ndp items"
  have step: "buildForest lc ndp (items @ [item]) = forest_step lc ndp ?cs item"
    by (simp add: buildForest_def)
  show ?case
  proof (cases "isMarker ndp item")
    case True
    with snoc step show ?thesis by (simp add: forest_step_def)
  next
    case False
    then have f: "forest_step lc ndp ?cs item =
               upsert lc ?cs (relativeParts ndp item) (itemType item = tree)"
      by (simp add: forest_step_def)
    obtain n rest where p: "relativeParts ndp item = n # rest"
      using relativeParts_nonempty [of ndp item] by (cases "relativeParts ndp item") auto
    from snoc have a: "distinct_names ?cs" and b: "\<forall>c\<in>set ?cs. every_level distinct_names c"
      by simp_all
    from names_insert [OF relativeParts_nonempty b, of lc ndp item "itemType item = tree"]
      distinct_names_upsert [OF a, of lc n rest "itemType item = tree"]
    show ?thesis
      unfolding step f p by simp
  qed
qed

lemma names_buildForestE:
  "distinct_namesE (buildForestE lc ndp options items) \<and>
   (\<forall>c\<in>set (buildForestE lc ndp options items). every_levelE distinct_namesE c)"
proof (induction items rule: rev_induct)
  case Nil
  show ?case by (simp add: buildForestE_def distinct_namesE_def)
next
  case (snoc item items)
  let ?cs = "buildForestE lc ndp options items"
  have step: "buildForestE lc ndp options (items @ [item]) = forest_stepE lc ndp options ?cs item"
    by (simp add: buildForestE_def)
  show ?case
  proof (cases "isMarker ndp item \<or> filteredOut options (relativeParts ndp item) item")
    case True
    then have "forest_stepE lc ndp options ?cs item = ?cs"
      by (auto simp: forest_stepE_def)
    with snoc step show ?thesis by simp
  next
    case False
    then have f: "forest_stepE lc ndp options ?cs item =
               upsertE lc ?cs (relativeParts ndp item) item 1 options"
      by (simp add: forest_stepE_def)
    obtain n rest where p: "relativeParts ndp item = n # rest"
      using relativeParts_nonempty [of ndp item] by (cases "relativeParts ndp item") auto
    from snoc have a: "distinct_namesE ?cs"
      and b: "\<forall>c\<in>set ?cs. every_levelE distinct_namesE c"
      by simp_all
    from names_insertE [OF relativeParts_nonempty b, of lc ndp item item 1 options]
      distinct_namesE_upsertE [OF a, of lc n rest item 1 options]
    show ?thesis
      unfolding step f p by simp
  qed
qed

text \<open>
  The effect of one entry of the list on the set of paths; \<open>keep\<close> says whether the entry's
  own node may be created.
\<close>

definition path_step ::
  "(string list \<Rightarrow> GitHubTreeItem \<Rightarrow> bool) \<Rightarrow> string \<Rightarrow> (string list \<times> bool) set \<Rightarrow>
    GitHubTreeItem \<Rightarrow> (string list \<times> bool) set" where
  "path_step keep ndp S item =
    (if isMarker ndp item then S
     else stepP (relativeParts ndp item) (itemType item = tree)
            (keep (relativeParts ndp item) item) S)"

definition pathsOf ::
  "(string list \<Rightarrow> GitHubTreeItem \<Rightarrow> bool) \<Rightarrow> string \<Rightarrow> GitHubTreeItem list \<Rightarrow>
    (string list \<times> bool) set" where
  "pathsOf keep ndp items = foldl (path_step keep ndp) {} items"

lemma pathsOf_Nil: "pathsOf keep ndp [] = {}"
  by (simp add: pathsOf_def)

lemma pathsOf_snoc:
  "pathsOf keep ndp (items @ [item]) = path_step keep ndp (pathsOf keep ndp items) item"
  by (simp add: pathsOf_def)

lemma fpaths_buildForest:
  "set (fpaths (buildForest lc ndp items)) = pathsOf (\<lambda>parts item. True) ndp items"
proof (induction items rule: rev_induct)
  case Nil
  show ?case by (simp add: buildForest_def pathsOf_Nil)
next
  case (snoc item items)
  let ?cs = "buildForest lc ndp items"
  have step: "buildForest lc ndp (items @ [item]) = forest_step lc ndp ?cs item"
    by (simp add: buildForest_def)
  show ?case
  proof (cases "isMarker ndp item")
    case True
    with snoc show ?thesis
      unfolding step pathsOf_snoc by (simp add: forest_step_def path_step_def)
  next
    case False
    from names_buildForest [of lc ndp items]
    have "set (fpaths (upsert lc ?cs (relativeParts ndp item) (itemType item = tree))) =
      stepP (relativeParts ndp item) (itemType item = tree) True (set (fpaths ?cs))"
      by (intro paths_insert relativeParts_nonempty) simp_all
    with False snoc show ?thesis
      unfolding step pathsOf_snoc by (simp add: forest_step_def path_step_def)
  qed
qed

lemma fpathsE_buildForestE:
  "set (fpathsE (buildForestE lc ndp options items)) = pathsOf (keepsLeaf options) ndp items"
proof (induction items rule: rev_induct)
  case Nil
  show ?case by (simp add: buildForestE_def pathsOf_Nil)
next
  case (snoc item items)
  let ?cs = "buildForestE lc ndp options items"
  let ?ps = "relativeParts ndp item"
  have step: "buildForestE lc ndp options (items @ [item]) = forest_stepE lc ndp options ?cs item"
    by (simp add: buildForestE_def)
  show ?case
  proof (cases "isMarker ndp item")
    case True
    with snoc show ?thesis
      unfolding step pathsOf_snoc by (simp add: forest_stepE_def path_step_def)
  next
    case False
    from names_buildForestE [of lc ndp options items]
    have a: "distinct_namesE ?cs" and b: "\<forall>c\<in>set ?cs. every_levelE distinct_namesE c"
      by simp_all
    note ins = pathsE_insert [OF relativeParts_nonempty a b, of lc ndp item item 1 options]
    have "set (fpathsE (forest_stepE lc ndp options ?cs item)) =
      stepP ?ps (itemType item = tree) (keepsLeaf options ?ps item) (set (fpathsE ?cs))"
    proof (cases "filteredOut options ?ps item")
      case True
      obtain n rest where p: "?ps = n # rest"
        using relativeParts_nonempty [of ndp item] by (cases ?ps) auto
      from True have "insertPartsE lc ?cs ?ps item 1 options = ?cs"
        unfolding p by (simp add: insertPartsE_upsertE)
      with ins True False show ?thesis
        by (simp add: forest_stepE_def)
    next
      case nf: False
      with ins False show ?thesis
        by (simp add: forest_stepE_def)
    qed
    with False snoc show ?thesis
      unfolding step pathsOf_snoc by (simp add: path_step_def)
  qed
qed


lemma stepP_keeps_dir: "(q, True) \<in> S \<Longrightarrow> (q, True) \<in> stepP ps t leaf S"
  by (simp add: stepP_def)

lemma stepP_prefix: "q \<noteq> [] \<Longrightarrow> strict_prefix q ps \<Longrightarrow> (q, True) \<in> stepP ps t leaf S"
  by (simp add: stepP_def)

lemma stepP_file:
  "(q, False) \<in> stepP ps t leaf S \<Longrightarrow> (q, False) \<in> S \<or> (q = ps \<and> \<not> t \<and> leaf)"
  by (auto simp: stepP_def split: if_splits)

lemma stepP_functional:
  assumes "\<And>q. \<not> ((q, True) \<in> S \<and> (q, False) \<in> S)"
  shows "\<not> ((q, True) \<in> stepP ps t leaf S \<and> (q, False) \<in> stepP ps t leaf S)"
proof
  assume a: "(q, True) \<in> stepP ps t leaf S \<and> (q, False) \<in> stepP ps t leaf S"
  then have f: "(q, False) \<in> S \<and> \<not> strict_prefix q ps \<or> (q = ps \<and> \<not> t \<and> ps \<notin> fst ` S)"
    by (auto simp: stepP_def split: if_splits)
  from a have d: "(q, True) \<in> S \<or> strict_prefix q ps \<or> (q = ps \<and> t \<and> ps \<notin> fst ` S)"
    by (auto simp: stepP_def split: if_splits)
  from f show False
  proof
    assume f1: "(q, False) \<in> S \<and> \<not> strict_prefix q ps"
    then have "q \<in> fst ` S"
      by (auto intro: rev_image_eqI)
    with d f1 assms [of q] show False
      by auto
  next
    assume f2: "q = ps \<and> \<not> t \<and> ps \<notin> fst ` S"
    then have "(q, True) \<notin> S"
      by (auto intro: rev_image_eqI)
    with d f2 show False
      by auto
  qed
qed



lemma pathsOf_keeps_dir:
  "(q, True) \<in> pathsOf keep ndp xs \<Longrightarrow> (q, True) \<in> pathsOf keep ndp (xs @ ys)"
proof (induction ys rule: rev_induct)
  case Nil
  then show ?case by simp
next
  case (snoc y ys)
  then have "(q, True) \<in> pathsOf keep ndp (xs @ ys)"
    by simp
  then have "(q, True) \<in> path_step keep ndp (pathsOf keep ndp (xs @ ys)) y"
    by (simp add: path_step_def stepP_keeps_dir)
  then show ?case
    unfolding append_assoc [symmetric] pathsOf_snoc .
qed

lemma pathsOf_prefix:
  assumes "item \<in> set items" and "\<not> isMarker ndp item"
    and "q \<noteq> []" and "strict_prefix q (relativeParts ndp item)"
  shows "(q, True) \<in> pathsOf keep ndp items"
proof -
  from assms(1) obtain xs ys where items: "items = (xs @ [item]) @ ys"
    by (auto simp: in_set_conv_decomp)
  have "(q, True) \<in> pathsOf keep ndp (xs @ [item])"
    unfolding pathsOf_snoc using assms(2-4) by (simp add: path_step_def stepP_prefix)
  then show ?thesis
    unfolding items by (rule pathsOf_keeps_dir)
qed

lemma pathsOf_functional:
  "\<not> ((q, True) \<in> pathsOf keep ndp items \<and> (q, False) \<in> pathsOf keep ndp items)"
proof (induction items arbitrary: q rule: rev_induct)
  case Nil
  show ?case by (simp add: pathsOf_Nil)
next
  case (snoc item items)
  show ?case
    unfolding pathsOf_snoc path_step_def
    using snoc stepP_functional [of "pathsOf keep ndp items", OF snoc] by simp
qed

lemma pathsOf_file:
  "(q, False) \<in> pathsOf keep ndp items \<Longrightarrow>
    \<exists>item\<in>set items. \<not> isMarker ndp item \<and> relativeParts ndp item = q \<and>
      itemType item = blob \<and> keep q item"
proof (induction items rule: rev_induct)
  case Nil
  then show ?case by (simp add: pathsOf_Nil)
next
  case (snoc item items)
  show ?case
  proof (cases "(q, False) \<in> pathsOf keep ndp items")
    case True
    with snoc.IH show ?thesis by auto
  next
    case False
    with snoc.prems have m: "\<not> isMarker ndp item"
      and "(q, False) \<in> stepP (relativeParts ndp item) (itemType item = tree)
              (keep (relativeParts ndp item) item) (pathsOf keep ndp items)"
      unfolding pathsOf_snoc path_step_def by (auto split: if_splits)
    from stepP_file [OF this(2)] False
    have "q = relativeParts ndp item" "itemType item \<noteq> tree" "keep (relativeParts ndp item) item"
      by simp_all
    moreover from this(2) have "itemType item = blob"
      by (cases "itemType item") simp_all
    ultimately show ?thesis
      using m by auto
  qed
qed


lemma pathsOf_dir_entry:
  assumes m: "\<not> isMarker ndp item" and t: "itemType item = tree"
    and k: "keep (relativeParts ndp item) item"
    and first: "\<forall>x\<in>set xs. \<not> isMarker ndp x \<and> relativeParts ndp x = relativeParts ndp item \<longrightarrow>
                  itemType x = tree"
  shows "(relativeParts ndp item, True) \<in> pathsOf keep ndp (xs @ item # ys)"
proof -
  let ?ps = "relativeParts ndp item"
  let ?S = "pathsOf keep ndp xs"
  have nf: "(?ps, False) \<notin> ?S"
  proof
    assume "(?ps, False) \<in> ?S"
    from pathsOf_file [OF this] first show False
      by auto
  qed
  have "(?ps, True) \<in> stepP ?ps True True ?S"
  proof (cases "?ps \<in> fst ` ?S")
    case True
    then obtain b where "(?ps, b) \<in> ?S"
      by auto
    with nf have "(?ps, True) \<in> ?S"
      by (cases b) simp_all
    then show ?thesis
      by (rule stepP_keeps_dir)
  next
    case False
    then show ?thesis
      by (simp add: stepP_def)
  qed
  then have "(?ps, True) \<in> pathsOf keep ndp (xs @ [item])"
    unfolding pathsOf_snoc path_step_def using m t k by simp
  then have "(?ps, True) \<in> pathsOf keep ndp ((xs @ [item]) @ ys)"
    by (rule pathsOf_keeps_dir)
  then show ?thesis
    by simp
qed

text \<open>
  The nodes of a built tree, each as its path below the root and its directory flag; the
  entries that take part in a tree, and the path of an entry below the filter path.
\<close>

definition nodes :: "TreeNode \<Rightarrow> (string list \<times> bool) set" where
  "nodes t = set (fpaths (children t))"

definition nodesE :: "EnhancedTreeNode \<Rightarrow> (string list \<times> bool) set" where
  "nodesE t = set (fpathsE (childrenE t))"

definition contributes :: "string \<Rightarrow> GitHubTreeItem \<Rightarrow> bool" where
  "contributes dirPath item \<longleftrightarrow>
    selected (normalizePath dirPath) item \<and> \<not> isMarker (normalizePath dirPath) item"

definition entryParts :: "string \<Rightarrow> GitHubTreeItem \<Rightarrow> string list" where
  "entryParts dirPath item = relativeParts (normalizePath dirPath) item"

lemma nodes_buildTree:
  "nodes (buildTree lc items dirPath) =
    pathsOf (\<lambda>parts item. True) (normalizePath dirPath)
      (filter (selected (normalizePath dirPath)) items)"
  by (simp add: nodes_def buildTree_forest fpaths_array_sort fpaths_buildForest)

lemma nodesE_buildEnhancedTree:
  "nodesE (buildEnhancedTree lc items dirPath options) =
    pathsOf (keepsLeaf options) (normalizePath dirPath)
      (filter (selected (normalizePath dirPath)) items)"
  by (simp add: nodesE_def buildEnhancedTree_forest fpathsE_array_sort fpathsE_buildForestE)

lemma pathsOf_cong:
  "(\<And>parts item. keep parts item = keep' parts item) \<Longrightarrow>
    pathsOf keep ndp items = pathsOf keep' ndp items"
proof -
  assume "\<And>parts item. keep parts item = keep' parts item"
  then have "keep = keep'"
    by (intro ext)
  then show ?thesis
    by simp
qed

text \<open>All nodes of a plain forest, and the rows of the formatters as lists of nodes.\<close>

fun allnodes :: "TreeNode list \<Rightarrow> TreeNode list" where
  "allnodes [] = []"
| "allnodes (TreeNode n d cs # rest) = TreeNode n d cs # allnodes cs @ allnodes rest"

lemma allnodes_Cons: "allnodes (c # rest) = c # allnodes (children c) @ allnodes rest"
  by (cases c) simp

lemma rows_nodes: "map snd (rows cs pre) = allnodes cs"
  by (induction cs pre rule: rows.induct) simp_all

lemma rows_top_nodes: "map snd (rows_top cs) = allnodes cs"
  by (induction cs) (simp_all add: allnodes_Cons rows_nodes)

lemma rowsE_unbounded: "map snd (rowsE cs pre \<infinity>) = allnodesE cs"
  by (induction cs pre "\<infinity> :: enat" rule: rowsE.induct) simp_all

lemma rowsE_top_unbounded: "map snd (rowsE_top cs \<infinity>) = allnodesE cs"
  by (induction cs) (simp_all add: allnodesE_Cons rowsE_unbounded)

definition shown :: "string \<times> bool \<Rightarrow> string" where
  "shown nd = (if snd nd then fst nd @ ''/'' else fst nd)"

definition lastName :: "string list \<times> bool \<Rightarrow> string \<times> bool" where
  "lastName pb = (last (fst pb), snd pb)"

lemma allnodes_fpaths:
  "map (\<lambda>c. (name c, isDirectory c)) (allnodes cs) = map lastName (fpaths cs)"
proof (induction cs rule: allnodes.induct)
  case 1
  show ?case by simp
next
  case (2 n d cs rest)
  have "\<forall>pb\<in>set (fpaths cs). lastName (case pb of (p, b) \<Rightarrow> (n # p, b)) = lastName pb"
    using fpaths_nonempty [of cs] by (auto simp: lastName_def)
  then have "map (lastName \<circ> (\<lambda>(p, b). (n # p, b))) (fpaths cs) = map lastName (fpaths cs)"
    by (intro map_cong) simp_all
  with 2 show ?case
    by (simp add: lastName_def)
qed

lemma allnodesE_fpathsE:
  "map (\<lambda>c. (nameE c, isDirectoryE c)) (allnodesE cs) = map lastName (fpathsE cs)"
proof (induction cs rule: allnodesE.induct)
  case 1
  show ?case by simp
next
  case (2 n d s cs dp rest)
  have "\<forall>pb\<in>set (fpathsE cs). lastName (case pb of (p, b) \<Rightarrow> (n # p, b)) = lastName pb"
    using fpathsE_nonempty [of cs] by (auto simp: lastName_def)
  then have "map (lastName \<circ> (\<lambda>(p, b). (n # p, b))) (fpathsE cs) = map lastName (fpathsE cs)"
    by (intro map_cong) simp_all
  with 2 show ?case
    by (simp add: lastName_def)
qed

lemma displayName_shown: "displayName c = shown (name c, isDirectory c)"
  by (simp add: displayName_def shown_def)

lemma baseName_shown: "baseName c = shown (nameE c, isDirectoryE c)"
  by (simp add: baseName_def shown_def)

lemma rows_top_names:
  "map (displayName \<circ> snd) (rows_top cs) = map (shown \<circ> lastName) (fpaths cs)"
proof -
  have "map (displayName \<circ> snd) (rows_top cs) =
        map shown (map (\<lambda>c. (name c, isDirectory c)) (map snd (rows_top cs)))"
    by (simp add: displayName_shown comp_def)
  then show ?thesis
    unfolding rows_top_nodes allnodes_fpaths by simp
qed

lemma rowsE_top_names:
  "map (baseName \<circ> snd) (rowsE_top cs \<infinity>) = map (shown \<circ> lastName) (fpathsE cs)"
proof -
  have "map (baseName \<circ> snd) (rowsE_top cs \<infinity>) =
        map shown (map (\<lambda>c. (nameE c, isDirectoryE c)) (map snd (rowsE_top cs \<infinity>)))"
    by (simp add: baseName_shown comp_def)
  then show ?thesis
    unfolding rowsE_top_unbounded allnodesE_fpathsE by simp
qed




section \<open>Directories, the extension filter and the two formatters\<close>

subsection \<open>Directories among the nodes\<close>

lemma contributing_prefix:
  assumes "item \<in> set items" and "contributes dirPath item"
    and "q \<noteq> []" and "strict_prefix q (entryParts dirPath item)"
  shows "(q, True) \<in>
    pathsOf keep (normalizePath dirPath) (filter (selected (normalizePath dirPath)) items)"
    and "(q, False) \<notin>
    pathsOf keep (normalizePath dirPath) (filter (selected (normalizePath dirPath)) items)"
proof -
  let ?ndp = "normalizePath dirPath"
  let ?P = "pathsOf keep ?ndp (filter (selected ?ndp) items)"
  have "item \<in> set (filter (selected ?ndp) items)"
    using assms(1,2) by (simp add: contributes_def)
  moreover have "\<not> isMarker ?ndp item"
    using assms(2) by (simp add: contributes_def)
  ultimately show d: "(q, True) \<in> ?P"
    using assms(3,4) unfolding entryParts_def by (intro pathsOf_prefix)
  with pathsOf_functional [of q keep ?ndp "filter (selected ?ndp) items"]
  show "(q, False) \<notin> ?P"
    by blast
qed

lemma contributing_directory:
  assumes c: "contributes dirPath item" and t: "itemType item = tree"
    and k: "keep (entryParts dirPath item) item"
    and first: "\<forall>x\<in>set xs. contributes dirPath x \<and>
                  entryParts dirPath x = entryParts dirPath item \<longrightarrow> itemType x = tree"
  shows "(entryParts dirPath item, True) \<in>
    pathsOf keep (normalizePath dirPath)
      (filter (selected (normalizePath dirPath)) (xs @ item # ys))"
proof -
  let ?ndp = "normalizePath dirPath"
  have f: "filter (selected ?ndp) (xs @ item # ys) =
      filter (selected ?ndp) xs @ item # filter (selected ?ndp) ys"
    using c by (simp add: contributes_def)
  have m: "\<not> isMarker ?ndp item"
    using c by (simp add: contributes_def)
  have first': "\<forall>x\<in>set (filter (selected ?ndp) xs).
      \<not> isMarker ?ndp x \<and> relativeParts ?ndp x = relativeParts ?ndp item \<longrightarrow> itemType x = tree"
    using first by (simp add: contributes_def entryParts_def)
  show ?thesis
    unfolding f entryParts_def
    using m t k [unfolded entryParts_def] first' by (rule pathsOf_dir_entry)
qed

lemma never_demoted:
  assumes "(q, True) \<in>
    pathsOf keep (normalizePath dirPath) (filter (selected (normalizePath dirPath)) xs)"
  shows "(q, True) \<in>
    pathsOf keep (normalizePath dirPath) (filter (selected (normalizePath dirPath)) (xs @ ys))"
  unfolding filter_append using assms by (rule pathsOf_keeps_dir)

lemma keepsLeaf_tree: "itemType item = tree \<Longrightarrow> keepsLeaf options parts item"
  by (simp add: keepsLeaf_def)

definition file_then_directory :: "GitHubTreeItem list" where
  "file_then_directory =
    [\<lparr>itemPath = ''a'', itemType = blob, itemSize = Some 10\<rparr>,
     \<lparr>itemPath = ''a'', itemType = tree, itemSize = None\<rparr>]"

text \<open>
  Claim C1, as stated, fails when a file entry precedes a directory entry of the same
  path: both builders create the node from the first entry (\<^verbatim>\<open>if (!childrenMap.has(childName))\<close>,
  \<^verbatim>\<open>if (!child)\<close>) and a later entry of the same path changes nothing unless it has more
  segments. The node stays a file although an entry with that exact path has type
  directory; with the two entries in the other order it is a directory.
\<close>

theorem directory_entry_after_file:
  "\<forall>lc.
     children (buildTree lc file_then_directory []) = [TreeNode ''a'' False []] \<and>
     childrenE (buildEnhancedTree lc file_then_directory [] defaultOptions) =
       [EnhancedTreeNode ''a'' False (Some 10) [] 1] \<and>
     formatTree lc file_then_directory [] = ''a'' \<and>
     children (buildTree lc (rev file_then_directory) []) = [TreeNode ''a'' True []] \<and>
     childrenE (buildEnhancedTree lc (rev file_then_directory) [] defaultOptions) =
       [EnhancedTreeNode ''a'' True None [] 1]"
  by (rule allI) code_simp

text \<open>
  Claim C1, amended. In the tree of either builder, for every entry list (so for every
  order of the entries): a path that is a proper prefix of the path of a contributing
  entry is a directory node, and not a file node, whatever the other entries say; the
  path of a contributing directory entry is a directory node when no file entry of the
  same path precedes it; and a directory node of the tree of a list is a directory node
  of the tree of every extension of that list.
\<close>

theorem directory_wins:
  "(item \<in> set items \<and> contributes dirPath item \<and> q \<noteq> [] \<and>
      strict_prefix q (entryParts dirPath item) \<longrightarrow>
      (q, True) \<in> nodes (buildTree lc items dirPath) \<and>
      (q, False) \<notin> nodes (buildTree lc items dirPath) \<and>
      (q, True) \<in> nodesE (buildEnhancedTree lc items dirPath options) \<and>
      (q, False) \<notin> nodesE (buildEnhancedTree lc items dirPath options)) \<and>
   (contributes dirPath item \<and> itemType item = tree \<and>
      (\<forall>x\<in>set xs. contributes dirPath x \<and> entryParts dirPath x = entryParts dirPath item \<longrightarrow>
         itemType x = tree) \<longrightarrow>
      (entryParts dirPath item, True) \<in> nodes (buildTree lc (xs @ item # ys) dirPath) \<and>
      (entryParts dirPath item, True) \<in>
        nodesE (buildEnhancedTree lc (xs @ item # ys) dirPath options)) \<and>
   ((q, True) \<in> nodes (buildTree lc xs dirPath) \<longrightarrow>
      (q, True) \<in> nodes (buildTree lc (xs @ ys) dirPath)) \<and>
   ((q, True) \<in> nodesE (buildEnhancedTree lc xs dirPath options) \<longrightarrow>
      (q, True) \<in> nodesE (buildEnhancedTree lc (xs @ ys) dirPath options))"
  unfolding nodes_buildTree nodesE_buildEnhancedTree
  apply (intro conjI impI)
  subgoal by (elim conjE) (rule contributing_prefix(1))
  subgoal by (elim conjE) (rule contributing_prefix(2))
  subgoal by (elim conjE) (rule contributing_prefix(1))
  subgoal by (elim conjE) (rule contributing_prefix(2))
  subgoal by (elim conjE) (rule contributing_directory, assumption+, rule TrueI, assumption)
  subgoal by (elim conjE) (rule contributing_directory, assumption+, erule keepsLeaf_tree,
      assumption)
  subgoal by (rule never_demoted)
  subgoal by (rule never_demoted)
  done

definition conflicting_entries :: "GitHubTreeItem list" where
  "conflicting_entries =
    [\<lparr>itemPath = ''src'', itemType = blob, itemSize = Some 7\<rparr>,
     \<lparr>itemPath = ''src/index.ts'', itemType = blob, itemSize = Some 100\<rparr>,
     \<lparr>itemPath = ''lib'', itemType = tree, itemSize = None\<rparr>,
     \<lparr>itemPath = ''lib'', itemType = blob, itemSize = Some 5\<rparr>]"

theorem directory_wins_witness:
  "([''src''], True) \<in> nodes (buildTree byteCompare conflicting_entries []) \<and>
   ([''src''], False) \<notin> nodes (buildTree byteCompare conflicting_entries []) \<and>
   ([''src''], True) \<in> nodesE (buildEnhancedTree byteCompare conflicting_entries [] defaultOptions) \<and>
   ([''src''], False) \<notin> nodesE (buildEnhancedTree byteCompare conflicting_entries [] defaultOptions) \<and>
   ([''lib''], True) \<in> nodes (buildTree byteCompare conflicting_entries []) \<and>
   ([''lib''], True) \<in> nodesE (buildEnhancedTree byteCompare conflicting_entries [] defaultOptions) \<and>
   ([''src''], True) \<in> nodes (buildTree byteCompare (take 2 conflicting_entries @ [last conflicting_entries]) []) \<and>
   ([''src''], True) \<in>
     nodesE (buildEnhancedTree byteCompare (take 2 conflicting_entries @ [last conflicting_entries]) []
       defaultOptions)"
proof -
  let ?a = "\<lparr>itemPath = ''src'', itemType = blob, itemSize = Some 7\<rparr>"
  let ?b = "\<lparr>itemPath = ''src/index.ts'', itemType = blob, itemSize = Some 100\<rparr>"
  let ?c = "\<lparr>itemPath = ''lib'', itemType = tree, itemSize = None\<rparr>"
  let ?d = "\<lparr>itemPath = ''lib'', itemType = blob, itemSize = Some 5\<rparr>"
  have l: "conflicting_entries = [?a, ?b] @ ?c # [?d]"
    by (simp add: conflicting_entries_def)
  have 1: "?b \<in> set conflicting_entries"
    by (simp add: conflicting_entries_def)
  have 2: "contributes [] ?b"
    by code_simp
  have 3: "strict_prefix [''src''] (entryParts [] ?b)"
    by code_simp
  have 4: "contributes [] ?c"
    by code_simp
  have 5: "\<forall>x\<in>set [?a, ?b]. contributes [] x \<and> entryParts [] x = entryParts [] ?c \<longrightarrow>
             itemType x = tree"
    by code_simp
  have 6: "entryParts [] ?c = [''lib'']"
    by code_simp
  have 7: "([''src''], True) \<in> nodes (buildTree byteCompare (take 2 conflicting_entries) [])"
    by code_simp
  have 8: "([''src''], True) \<in>
      nodesE (buildEnhancedTree byteCompare (take 2 conflicting_entries) [] defaultOptions)"
    by code_simp
  note n = directory_wins [of _ _ "[]" "[''src'']" byteCompare defaultOptions
      "take 2 conflicting_entries" "[last conflicting_entries]", THEN conjunct2, THEN conjunct2]
  note w = directory_wins [of ?b conflicting_entries "[]" "[''src'']" byteCompare defaultOptions]
  note v = directory_wins [of ?c _ "[]" _ byteCompare defaultOptions "[?a, ?b]" "[?d]", folded l]
  from w [THEN conjunct1] 1 2 3 v [THEN conjunct2, THEN conjunct1] 4 5 6
    n [THEN conjunct1, rule_format, OF 7] n [THEN conjunct2, rule_format, OF 8]
  show ?thesis
    by simp
qed

subsection \<open>The extension filter\<close>










subsection \<open>The two formatters on the same entries\<close>

lemma keepsLeaf_no_filter: "\<not> has_filter options \<Longrightarrow> keepsLeaf options parts item"
  by (auto simp: keepsLeaf_def has_filter_def matchesExtFilter_def split: option.splits)

lemma same_nodes:
  assumes "\<not> has_filter options"
  shows "nodes (buildTree lc items dirPath) = nodesE (buildEnhancedTree lc items dirPath options)"
  unfolding nodes_buildTree nodesE_buildEnhancedTree
  by (rule pathsOf_cong) (simp add: keepsLeaf_no_filter [OF assms])

lemma buildTree_Nil: "children (buildTree lc [] dirPath) = []"
  by (simp add: buildTree_forest buildForest_def array_sort_Nil)

lemma formatTree_rows:
  "formatTree lc items dirPath =
    (if rows_top (children (buildTree lc items dirPath)) = [] then ''(empty directory)''
     else join newline
            (map (\<lambda>r. fst r @ displayName (snd r)) (rows_top (children (buildTree lc items dirPath)))))"
proof -
  have r: "renderRow = (\<lambda>r. fst r @ displayName (snd r))"
    by (rule ext) (simp add: renderRow_def)
  show ?thesis
    using buildTree_Nil [of lc dirPath]
    by (cases "items = []")
      (simp_all add: formatTree_def Let_def rows_top_eq_Nil formatTree_lines_rows r)
qed

lemma formatSubTree_plain_rows:
  assumes "showStats options = Some False" and "showSize options \<noteq> Some True"
  shows "formatSubTree lc items dirPath options =
    (if rowsE_top (childrenE (buildEnhancedTree lc items dirPath options)) (maxDepthOf options) = []
     then ''(empty directory)''
     else join newline
            (map (\<lambda>r. fst r @ baseName (snd r))
               (rowsE_top (childrenE (buildEnhancedTree lc items dirPath options))
                  (maxDepthOf options))))"
proof (cases "childrenE (buildEnhancedTree lc items dirPath options) = []")
  case True
  then show ?thesis
    by (simp add: formatSubTree_def Let_def)
next
  case False
  have r: "renderRowE options (maxDepthOf options) = (\<lambda>r. fst r @ baseName (snd r))"
    using assms(2) by (intro ext) (simp add: renderRowE_def displayNameOf_def baseName_def)
  from formatSubTree_rows [OF False] False assms(1) show ?thesis
    by (simp add: r summaryOf_def rowsE_top_eq_Nil)
qed

lemma same_row_names:
  assumes "\<not> has_filter options" and "maxDepth options = None"
  shows "set (map (displayName \<circ> snd) (rows_top (children (buildTree lc items dirPath)))) =
    set (map (baseName \<circ> snd)
      (rowsE_top (childrenE (buildEnhancedTree lc items dirPath options)) (maxDepthOf options)))"
proof -
  have inf: "maxDepthOf options = \<infinity>"
    using assms(2) by (simp add: maxDepthOf_def)
  have "set (map (shown \<circ> lastName) (fpaths (children (buildTree lc items dirPath)))) =
        (shown \<circ> lastName) ` nodes (buildTree lc items dirPath)"
    by (simp add: nodes_def)
  also have "\<dots> = (shown \<circ> lastName) ` nodesE (buildEnhancedTree lc items dirPath options)"
    unfolding same_nodes [OF assms(1)] ..
  also have "\<dots> =
      set (map (shown \<circ> lastName) (fpathsE (childrenE (buildEnhancedTree lc items dirPath options))))"
    by (simp add: nodesE_def)
  finally show ?thesis
    unfolding inf rows_top_names rowsE_top_names .
qed

lemma same_emptiness:
  assumes "\<not> has_filter options"
  shows "rows_top (children (buildTree lc items dirPath)) = [] \<longleftrightarrow>
    rowsE_top (childrenE (buildEnhancedTree lc items dirPath options)) (maxDepthOf options) = []"
proof -
  have p: "set (fpaths cs) = {} \<longleftrightarrow> cs = []" for cs
    by (cases cs rule: fpaths.cases) simp_all
  have e: "set (fpathsE cs) = {} \<longleftrightarrow> cs = []" for cs
    by (cases cs rule: fpathsE.cases) simp_all
  have "children (buildTree lc items dirPath) = [] \<longleftrightarrow>
        childrenE (buildEnhancedTree lc items dirPath options) = []"
    using same_nodes [OF assms, of lc items dirPath]
    unfolding nodes_def nodesE_def p [symmetric] e [symmetric] by simp
  then show ?thesis
    by (simp add: rows_top_eq_Nil rowsE_top_eq_Nil)
qed

definition quiet :: SubTreeOptions where
  "quiet = defaultOptions\<lparr>showSize := Some False, showStats := Some False\<rparr>"

text \<open>
  Claim C10. With \<^verbatim>\<open>showStats\<close> false, \<^verbatim>\<open>showSize\<close> not true, no extension filter and no
  depth bound, each formatter returns the reserved text for an empty tree or else one line
  for every row, and a line is the row's prefix followed by the name of its node (with
  \<^verbatim>\<open>/\<close> for a directory); the names of the rows of the plain formatter are the names of the
  rows of the enhanced formatter, the two outputs are the reserved text together, and
  the two trees have the same nodes at the same paths with the same directory flags.
\<close>

theorem same_names:
  assumes "showStats options = Some False" and "showSize options \<noteq> Some True"
    and "\<not> has_filter options" and "maxDepth options = None"
  shows
    "(let rs = rows_top (children (buildTree lc items dirPath));
          rsE = rowsE_top (childrenE (buildEnhancedTree lc items dirPath options))
                  (maxDepthOf options)
      in formatTree lc items dirPath =
           (if rs = [] then ''(empty directory)''
            else join newline (map (\<lambda>r. fst r @ displayName (snd r)) rs)) \<and>
         formatSubTree lc items dirPath options =
           (if rsE = [] then ''(empty directory)''
            else join newline (map (\<lambda>r. fst r @ baseName (snd r)) rsE)) \<and>
         set (map (displayName \<circ> snd) rs) = set (map (baseName \<circ> snd) rsE) \<and>
         (rs = [] \<longleftrightarrow> rsE = []) \<and>
         nodes (buildTree lc items dirPath) = nodesE (buildEnhancedTree lc items dirPath options))"
  unfolding Let_def
  apply (intro conjI)
  subgoal by (rule formatTree_rows)
  subgoal by (rule formatSubTree_plain_rows [OF assms(1,2)])
  subgoal by (rule same_row_names [OF assms(3,4)])
  subgoal by (rule same_emptiness [OF assms(3)])
  subgoal by (rule same_nodes [OF assms(3)])
  done

theorem same_names_witness:
  "set (map (displayName \<circ> snd) (rows_top (children (buildTree byteCompare example_items [])))) =
   set (map (baseName \<circ> snd)
     (rowsE_top (childrenE (buildEnhancedTree byteCompare example_items [] quiet)) (maxDepthOf quiet))) \<and>
   nodes (buildTree byteCompare example_items []) = nodesE (buildEnhancedTree byteCompare example_items [] quiet) \<and>
   map (displayName \<circ> snd) (rows_top (children (buildTree byteCompare example_items []))) =
     [''README.md'', ''src/'', ''index.ts'', ''utils.ts''] \<and>
   map (baseName \<circ> snd)
     (rowsE_top (childrenE (buildEnhancedTree byteCompare example_items [] quiet)) (maxDepthOf quiet)) =
     [''src/'', ''index.ts'', ''utils.ts'', ''README.md'']"
proof -
  have a: "showStats quiet = Some False" "showSize quiet \<noteq> Some True" "\<not> has_filter quiet"
    "maxDepth quiet = None"
    by (simp_all add: quiet_def defaultOptions_def has_filter_def)
  note s = same_names [OF a, of byteCompare example_items "[]", unfolded Let_def]
  have p: "map (displayName \<circ> snd) (rows_top (children (buildTree byteCompare example_items []))) =
     [''README.md'', ''src/'', ''index.ts'', ''utils.ts'']"
    by code_simp
  have e: "map (baseName \<circ> snd)
     (rowsE_top (childrenE (buildEnhancedTree byteCompare example_items [] quiet)) (maxDepthOf quiet)) =
     [''src/'', ''index.ts'', ''utils.ts'', ''README.md'']"
    by code_simp
  show ?thesis
    apply (intro conjI)
    subgoal by (rule s [THEN conjunct2, THEN conjunct2, THEN conjunct1])
    subgoal by (rule s [THEN conjunct2, THEN conjunct2, THEN conjunct2, THEN conjunct2])
    subgoal by (rule p)
    subgoal by (rule e)
    done
qed

end
